theory Spec2Isabelle
  imports Complex_Main "HOL-Library.Sublist" "HOL-Library.Log_Nat"
begin

section \<open>JavaScript values used by the reminder matcher\<close>

text \<open>
  The matcher of \<^verbatim>\<open>server.js\<close> works on millisecond timestamps, on the
  built-in \<^verbatim>\<open>Date\<close> and on \<^verbatim>\<open>Number\<close> applied to the pieces of a
  \<^verbatim>\<open>"HH:MM"\<close> string. Timestamps and minute counts are mathematical integers here:
  the doubles of the program are exact on integers below \<open>2^53\<close>, and every time value
  of a valid \<^verbatim>\<open>Date\<close> is below that. A number that may be \<^verbatim>\<open>NaN\<close> is an
  \<open>int option\<close> with \<open>None\<close> for \<^verbatim>\<open>NaN\<close>. Strings are lists of 8-bit characters.
\<close>

datatype number = Num rat | NaN | PosInfinity | NegInfinity

datatype val = Undefined | N number

subsection \<open>\<^verbatim>\<open>Number(string)\<close>\<close>

text \<open>
  \<^verbatim>\<open>Number\<close> on a string, after the grammar of ECMAScript's
  \<^emph>\<open>StringNumericLiteral\<close>: white space is trimmed, the empty string is \<open>0\<close>, then
  a binary, octal or hexadecimal integer without sign, or an optionally signed decimal
  literal (digits, optional fraction, optional exponent) or \<^verbatim>\<open>Infinity\<close>; everything
  else is \<^verbatim>\<open>NaN\<close>. The result is the double nearest to the value that the literal
  denotes (\<open>RoundMV\<close>: round to nearest, ties to even, as IEEE 754 binary64 with its
  subnormals, and an infinity from \<open>2^1024\<close> on), kept as the rational it is.
\<close>

function pow_sq :: "rat \<Rightarrow> int \<Rightarrow> rat" where
  \<comment> \<open>\<open>b^k\<close> for \<open>k \<ge> 0\<close>, by squaring\<close>
  "pow_sq b k =
     (if k \<le> 0 then 1
      else (let h = pow_sq b (k div 2) in if even k then h * h else b * h * h))"
  by pat_completeness auto
termination
  by (relation "measure (\<lambda>(b, k). nat k)") auto

declare pow_sq.simps [simp del]

definition pow_int :: "rat \<Rightarrow> int \<Rightarrow> rat" where
  "pow_int b e = (if 0 \<le> e then pow_sq b e else 1 / pow_sq b (- e))"

definition pow2 :: "int \<Rightarrow> rat" where
  "pow2 e = pow_int 2 e"

definition floor_log2 :: "rat \<Rightarrow> int" where
  \<comment> \<open>for \<open>a > 0\<close>: the \<open>e\<close> with \<open>2^e \<le> a < 2^(e+1)\<close>\<close>
  "floor_log2 a =
     (let (p, q) = quotient_of a;
          e = bitlen p - bitlen q
      in if pow2 e \<le> a then e else e - 1)"

definition round_half_even :: "rat \<Rightarrow> int" where
  "round_half_even x =
     (let f = \<lfloor>x\<rfloor>;
          d = x - of_int f
      in if d < 1 / 2 then f
         else if 1 / 2 < d then f + 1
         else if even f then f else f + 1)"

definition StrWhiteSpaceChar :: "char \<Rightarrow> bool" where
  "StrWhiteSpaceChar c =
     (of_char c \<in> {9::nat, 10, 11, 12, 13, 32, 160})"

definition trim :: "string \<Rightarrow> string" where
  "trim s = rev (dropWhile StrWhiteSpaceChar (rev (dropWhile StrWhiteSpaceChar s)))"

definition digit_of :: "nat \<Rightarrow> char \<Rightarrow> nat option" where
  "digit_of b c =
     (let n = (of_char c :: nat);
          v = (if 48 \<le> n \<and> n \<le> 57 then Some (n - 48)
               else if 97 \<le> n \<and> n \<le> 102 then Some (n - 87)
               else if 65 \<le> n \<and> n \<le> 70 then Some (n - 55)
               else None)
      in case v of None \<Rightarrow> None | Some d \<Rightarrow> if d < b then Some d else None)"

fun digits_acc :: "nat \<Rightarrow> string \<Rightarrow> int \<Rightarrow> int option" where
  "digits_acc b [] acc = Some acc"
| "digits_acc b (c # cs) acc =
     (case digit_of b c of
        None \<Rightarrow> None
      | Some d \<Rightarrow> digits_acc b cs (acc * int b + int d))"

definition digits :: "nat \<Rightarrow> string \<Rightarrow> int option" where
  \<comment> \<open>one or more digits of base \<open>b\<close>\<close>
  "digits b s = (if s = [] then None else digits_acc b s 0)"

definition SignedInteger :: "string \<Rightarrow> int option" where
  "SignedInteger s =
     (case s of
        [] \<Rightarrow> None
      | c # cs \<Rightarrow>
          if c = CHR ''+'' then digits 10 cs
          else if c = CHR ''-'' then map_option uminus (digits 10 cs)
          else digits 10 s)"

definition is_exp_char :: "char \<Rightarrow> bool" where
  "is_exp_char c = (c = CHR ''e'' \<or> c = CHR ''E'')"

definition Mantissa :: "string \<Rightarrow> rat option" where
  \<comment> \<open>\<^verbatim>\<open>digits\<close>, \<^verbatim>\<open>digits . digits?\<close> or \<^verbatim>\<open>. digits\<close>\<close>
  "Mantissa s =
     (let ip = takeWhile (\<lambda>c. c \<noteq> CHR ''.'') s;
          rest = dropWhile (\<lambda>c. c \<noteq> CHR ''.'') s
      in if rest = [] then map_option of_int (digits 10 ip)
         else
           (let fp = tl rest
            in if ip = [] \<and> fp = [] then None
               else
                 (case (if ip = [] then Some 0 else digits 10 ip,
                        if fp = [] then Some 0 else digits 10 fp) of
                    (Some i, Some f) \<Rightarrow> Some (of_int i + of_int f / pow_int 10 (int (length fp)))
                  | _ \<Rightarrow> None)))"

definition StrUnsignedDecimalLiteral :: "string \<Rightarrow> number" where
  "StrUnsignedDecimalLiteral s =
     (if s = ''Infinity'' then PosInfinity
      else
        (let m = takeWhile (\<lambda>c. \<not> is_exp_char c) s;
             rest = dropWhile (\<lambda>c. \<not> is_exp_char c) s
         in case Mantissa m of
              None \<Rightarrow> NaN
            | Some q \<Rightarrow>
                if rest = [] then Num q
                else
                  (case SignedInteger (tl rest) of
                     None \<Rightarrow> NaN
                   | Some e \<Rightarrow>
                       Num (q * pow_int 10 e))))"

definition negate :: "number \<Rightarrow> number" where
  "negate x =
     (case x of Num q \<Rightarrow> Num (- q) | NaN \<Rightarrow> NaN
      | PosInfinity \<Rightarrow> NegInfinity | NegInfinity \<Rightarrow> PosInfinity)"

definition StrDecimalLiteral :: "string \<Rightarrow> number" where
  "StrDecimalLiteral s =
     (case s of
        [] \<Rightarrow> NaN
      | c # cs \<Rightarrow>
          if c = CHR ''+'' then StrUnsignedDecimalLiteral cs
          else if c = CHR ''-'' then negate (StrUnsignedDecimalLiteral cs)
          else StrUnsignedDecimalLiteral s)"

definition NonDecimalIntegerLiteral :: "string \<Rightarrow> number option" where
  \<comment> \<open>\<open>None\<close> when the text has no \<^verbatim>\<open>0b\<close>, \<^verbatim>\<open>0o\<close> or \<^verbatim>\<open>0x\<close> prefix\<close>
  "NonDecimalIntegerLiteral s =
     (case s of
        z # p # ds \<Rightarrow>
          if z \<noteq> CHR ''0'' then None
          else
            (let base = (if p = CHR ''b'' \<or> p = CHR ''B'' then Some (2::nat)
                         else if p = CHR ''o'' \<or> p = CHR ''O'' then Some 8
                         else if p = CHR ''x'' \<or> p = CHR ''X'' then Some 16
                         else None)
             in case base of
                  None \<Rightarrow> None
                | Some b \<Rightarrow>
                    Some (case digits b ds of None \<Rightarrow> NaN | Some n \<Rightarrow> Num (of_int n)))
      | _ \<Rightarrow> None)"

definition RoundMV :: "rat \<Rightarrow> number" where
  \<comment> \<open>the double nearest to a mathematical value: 53 significant bits, exponents from
      \<open>-1022\<close> to \<open>1023\<close>; the rounded value reaches \<open>2^1024\<close> when the exponent
      does, or when the significand of exponent \<open>1023\<close> rounds up to \<open>2^53\<close>\<close>
  "RoundMV q =
     (if q = 0 then Num 0
      else
        (let a = \<bar>q\<bar>;
             e = max (floor_log2 a) (- 1022);
             ulp = pow2 (e - 52);
             m = round_half_even (a / ulp)
         in if 1024 \<le> e \<or> (e = 1023 \<and> 9007199254740992 \<le> m)
            then (if 0 < q then PosInfinity else NegInfinity)
            else Num (if 0 < q then of_int m * ulp else - (of_int m * ulp))))"

definition StringNumericLiteral :: "string \<Rightarrow> number" where
  \<comment> \<open>the mathematical value of the trimmed text\<close>
  "StringNumericLiteral t =
     (if t = [] then Num 0
      else (case NonDecimalIntegerLiteral t of
              Some x \<Rightarrow> x
            | None \<Rightarrow> StrDecimalLiteral t))"

definition Number_str :: "string \<Rightarrow> number" where
  "Number_str s =
     (case StringNumericLiteral (trim s) of
        Num q \<Rightarrow> RoundMV q
      | x \<Rightarrow> x)"

subsection \<open>\<^verbatim>\<open>split(':')\<close> and the destructuring \<^verbatim>\<open>[sh, sm] = ...\<close>\<close>

fun split_colon :: "string \<Rightarrow> string list" where
  "split_colon [] = [[]]"
| "split_colon (c # cs) =
     (if c = CHR '':'' then [] # split_colon cs
      else (case split_colon cs of
              [] \<Rightarrow> [[c]]
            | p # ps \<Rightarrow> (c # p) # ps))"

definition element :: "number list \<Rightarrow> nat \<Rightarrow> val" where
  \<comment> \<open>an array element read by destructuring: \<^verbatim>\<open>undefined\<close> beyond the end\<close>
  "element xs i = (if i < length xs then N (xs ! i) else Undefined)"

definition parseHM :: "string \<Rightarrow> val \<times> val" where
  \<comment> \<open>\<^verbatim>\<open>const [a, b] = s.split(':').map(Number)\<close>\<close>
  "parseHM s = (let xs = map Number_str (split_colon s) in (element xs 0, element xs 1))"

definition ToNumber :: "val \<Rightarrow> number" where
  "ToNumber v = (case v of Undefined \<Rightarrow> NaN | N x \<Rightarrow> x)"

definition strict_eq :: "int option \<Rightarrow> val \<Rightarrow> bool" where
  \<comment> \<open>\<^verbatim>\<open>a === b\<close> for a number \<open>a\<close> that is an integer or \<^verbatim>\<open>NaN\<close>\<close>
  "strict_eq a v =
     (case (a, v) of (Some i, N (Num q)) \<Rightarrow> of_int i = q | _ \<Rightarrow> False)"


subsection \<open>\<^verbatim>\<open>Date\<close>\<close>

text \<open>
  A \<^verbatim>\<open>Date\<close> is its time value: milliseconds since the epoch, at most 8.64e15 in
  absolute value, or \<open>None\<close> for an invalid date (time value \<^verbatim>\<open>NaN\<close>).
  \<open>TimeClip\<close> makes the date invalid beyond that range.

  The getters \<^verbatim>\<open>getHours\<close>, \<^verbatim>\<open>getMinutes\<close>, \<^verbatim>\<open>getFullYear\<close>,
  \<^verbatim>\<open>getMonth\<close>, \<^verbatim>\<open>getDate\<close> and the constructor from fields work in the
  time zone of the host that runs the program. The host's zone is the parameter
  \<open>host\<close> of every function below: a fixed offset in minutes, positive east of UTC
  (\<open>0\<close> on a host whose zone is UTC); a zone with daylight saving is not modelled.

  The program only ever builds a date from the year, month and day of another date.
  The three getters are therefore one value, the number of the local day (days since
  1970-01-01), and \<open>Date_fields\<close> builds the date from that day number. The day that
  the constructor names is that same day, with one exception: the constructor reads a
  year from 0 to 99 as the year plus 1900. \<open>DayFromYear\<close> is the day number of the
  first day of a year. The year 0 is a leap year and 1900 is not, so the 60 days up to
  29 February of the year 0 move by \<open>DayFromYear 1900 - DayFromYear 0\<close> days (the
  29th becomes 1 March 1900) and the later days of the year 0 by one day less; in the
  years 1 to 99 the leap years are those of 1901 to 1999, and every day moves by that
  same second amount.
\<close>

type_synonym Date = "int option"

definition msPerMinute :: int where "msPerMinute = 60000"
definition msPerHour :: int where "msPerHour = 3600000"
definition msPerDay :: int where "msPerDay = 86400000"

definition TimeClip :: "int \<Rightarrow> Date" where
  "TimeClip t = (if \<bar>t\<bar> \<le> 8640000000000000 then Some t else None)"

definition Date_ms :: "int \<Rightarrow> Date" where
  \<comment> \<open>\<^verbatim>\<open>new Date(ms)\<close>\<close>
  "Date_ms t = TimeClip t"

definition DayFromYear :: "int \<Rightarrow> int" where
  "DayFromYear y =
     365 * (y - 1970) + (y - 1969) div 4 - (y - 1901) div 100 + (y - 1601) div 400"

definition constructor_day :: "int \<Rightarrow> int" where
  \<comment> \<open>the day that \<^verbatim>\<open>new Date(y, m, d, ...)\<close> names when \<open>y\<close>, \<open>m\<close>, \<open>d\<close> are the
      year, month and date of day \<open>day\<close>\<close>
  "constructor_day day =
     (if DayFromYear 0 \<le> day \<and> day < DayFromYear 0 + 60
      then day + (DayFromYear 1900 - DayFromYear 0)
      else if DayFromYear 0 + 60 \<le> day \<and> day < DayFromYear 100
      then day + (DayFromYear 1900 - DayFromYear 0 - 1)
      else day)"

definition LocalTime :: "int \<Rightarrow> int \<Rightarrow> int" where
  "LocalTime host t = t + host * msPerMinute"

definition getTime :: "Date \<Rightarrow> int option" where
  "getTime d = d"

definition getHours :: "int \<Rightarrow> Date \<Rightarrow> int option" where
  "getHours host d = map_option (\<lambda>t. (LocalTime host t div msPerHour) mod 24) d"

definition getMinutes :: "int \<Rightarrow> Date \<Rightarrow> int option" where
  "getMinutes host d = map_option (\<lambda>t. (LocalTime host t div msPerMinute) mod 60) d"

definition getLocalDay :: "int \<Rightarrow> Date \<Rightarrow> int option" where
  \<comment> \<open>the day that \<^verbatim>\<open>getFullYear()\<close>, \<^verbatim>\<open>getMonth()\<close>, \<^verbatim>\<open>getDate()\<close> name\<close>
  "getLocalDay host d = map_option (\<lambda>t. LocalTime host t div msPerDay) d"

definition ToIntegerOrInfinity :: "number \<Rightarrow> int option" where
  \<comment> \<open>for a finite number: truncation towards zero; \<open>None\<close> when it is not finite\<close>
  "ToIntegerOrInfinity x =
     (case x of Num q \<Rightarrow> Some (if 0 \<le> q then \<lfloor>q\<rfloor> else \<lceil>q\<rceil>) | _ \<Rightarrow> None)"

definition Date_fields :: "int \<Rightarrow> int option \<Rightarrow> val \<Rightarrow> val \<Rightarrow> int \<Rightarrow> int \<Rightarrow> Date" where
  \<comment> \<open>\<^verbatim>\<open>new Date(y, m, d, hours, minutes, seconds, ms)\<close> with \<open>y\<close>, \<open>m\<close>, \<open>d\<close> the
      local day \<open>day\<close>: \<open>MakeDay\<close>, \<open>MakeTime\<close>, \<open>MakeDate\<close>, \<open>UTC\<close> and
      \<open>TimeClip\<close>\<close>
  "Date_fields host day hours minutes seconds ms =
     (case (day, ToIntegerOrInfinity (ToNumber hours), ToIntegerOrInfinity (ToNumber minutes)) of
        (Some dy, Some h, Some m) \<Rightarrow>
          TimeClip (constructor_day dy * msPerDay
                    + (h * msPerHour + m * msPerMinute + seconds * 1000 + ms)
                    - host * msPerMinute)
      | _ \<Rightarrow> None)"

section \<open>The store\<close>

text \<open>
  The records of \<^verbatim>\<open>db.json\<close>. A subscription is its endpoint and its keys (opaque
  here). The optional fields of a reminder are options, \<open>None\<close> for a missing or
  \<^verbatim>\<open>null\<close> field; \<open>lastSentISO\<close> is the instant that its ISO string denotes, in
  milliseconds (the program only writes \<^verbatim>\<open>toISOString()\<close> of a date there). A
  user's missing \<^verbatim>\<open>reminders\<close> array is the empty list.
\<close>

record subscription =
  endpoint :: string
  keys :: string

record reminder =
  id_r :: string
  time :: string
  timezoneOffsetMinutes :: "int option"
  repeatEveryMinutes :: "int option"
  repeatUntil :: "string option"
  lastSentISO :: "int option"

record user =
  id_u :: string
  subscription :: subscription
  reminders :: "reminder list"

record db =
  users :: "user list"

section \<open>The reminder matcher\<close>

definition tz_of :: "reminder \<Rightarrow> int" where
  \<comment> \<open>\<^verbatim>\<open>Number(rem.timezoneOffsetMinutes || 0)\<close>\<close>
  "tz_of rem = (case timezoneOffsetMinutes rem of None \<Rightarrow> 0 | Some z \<Rightarrow> z)"

definition userLocalMs :: "reminder \<Rightarrow> int \<Rightarrow> int" where
  "userLocalMs rem nowUtcMs = nowUtcMs - tz_of rem * 60 * 1000"

definition startHM :: "reminder \<Rightarrow> val \<times> val" where
  \<comment> \<open>\<^verbatim>\<open>(rem.time || '00:00').split(':').map(Number)\<close>\<close>
  "startHM rem = parseHM (if time rem = [] then ''00:00'' else time rem)"

definition not_repeating :: "reminder \<Rightarrow> bool" where
  \<comment> \<open>\<^verbatim>\<open>!rem.repeatEveryMinutes || rem.repeatEveryMinutes <= 0\<close>\<close>
  "not_repeating rem =
     (case repeatEveryMinutes rem of None \<Rightarrow> True | Some n \<Rightarrow> n = 0 \<or> n \<le> 0)"

definition debounced :: "reminder \<Rightarrow> int \<Rightarrow> bool" where
  \<comment> \<open>\<^verbatim>\<open>rem.lastSentISO\<close> is set and less than 70 seconds old\<close>
  "debounced rem nowUtcMs =
     (case lastSentISO rem of None \<Rightarrow> False | Some lastMs \<Rightarrow> nowUtcMs - lastMs < 70 * 1000)"

definition scheduledUtcMs :: "int \<Rightarrow> reminder \<Rightarrow> int \<Rightarrow> int option" where
  "scheduledUtcMs host rem nowUtcMs =
     (let userLocal = Date_ms (userLocalMs rem nowUtcMs);
          (sh, sm) = startHM rem;
          scheduledLocalStart = Date_fields host (getLocalDay host userLocal) sh sm 0 0
      in map_option (\<lambda>t. t + tz_of rem * 60 * 1000) (getTime scheduledLocalStart))"

definition untilUtcMs :: "int \<Rightarrow> reminder \<Rightarrow> string \<Rightarrow> int \<Rightarrow> int option" where
  "untilUtcMs host rem until nowUtcMs =
     (let userLocal = Date_ms (userLocalMs rem nowUtcMs);
          (uh, um) = parseHM until;
          untilLocal = Date_fields host (getLocalDay host userLocal) uh um 59 999
      in map_option (\<lambda>t. t + tz_of rem * 60 * 1000) (getTime untilLocal))"

definition past_until :: "int \<Rightarrow> reminder \<Rightarrow> int \<Rightarrow> bool" where
  \<comment> \<open>\<^verbatim>\<open>rem.repeatUntil\<close> is set (and not empty) and \<^verbatim>\<open>nowUtcMs > untilUtcMs\<close>\<close>
  "past_until host rem nowUtcMs =
     (case repeatUntil rem of
        None \<Rightarrow> False
      | Some until \<Rightarrow>
          if until = [] then False
          else (case untilUtcMs host rem until nowUtcMs of
                  None \<Rightarrow> False
                | Some u \<Rightarrow> nowUtcMs > u))"

definition shouldFireReminder :: "int \<Rightarrow> reminder \<Rightarrow> int \<Rightarrow> bool" where
  "shouldFireReminder host rem nowUtcMs =
     (let userLocal = Date_ms (userLocalMs rem nowUtcMs);
          (sh, sm) = startHM rem
      in if not_repeating rem then
           (if strict_eq (getHours host userLocal) sh \<and> strict_eq (getMinutes host userLocal) sm
            then (if debounced rem nowUtcMs then False else True)
            else False)
         else
           (case scheduledUtcMs host rem nowUtcMs of
              None \<Rightarrow> False
            | Some scheduled \<Rightarrow>
                if nowUtcMs < scheduled then False
                else if past_until host rem nowUtcMs then False
                else
                  (let diffMin = (nowUtcMs - scheduled) div (60 * 1000)
                   in if diffMin < 0 then False
                      else if (case repeatEveryMinutes rem of
                                 None \<Rightarrow> False
                               | Some n \<Rightarrow> diffMin mod n = 0)
                      then (if debounced rem nowUtcMs then False else True)
                      else False)))"


section \<open>Store helpers\<close>

definition readDB :: "db option \<Rightarrow> db" where
  \<comment> \<open>the file's content, or the empty store when it cannot be read or parsed\<close>
  "readDB file = (case file of None \<Rightarrow> \<lparr>users = []\<rparr> | Some data \<Rightarrow> data)"

fun update_first :: "('a \<Rightarrow> bool) \<Rightarrow> ('a \<Rightarrow> 'a) \<Rightarrow> 'a list \<Rightarrow> 'a list" where
  \<comment> \<open>a mutation of the object that \<^verbatim>\<open>find\<close> returns: the first one that matches\<close>
  "update_first P f [] = []"
| "update_first P f (x # xs) = (if P x then f x # xs else x # update_first P f xs)"

fun remove_first :: "('a \<Rightarrow> bool) \<Rightarrow> 'a list \<Rightarrow> 'a list" where
  \<comment> \<open>\<^verbatim>\<open>idx = xs.findIndex(P); if (idx >= 0) xs.splice(idx, 1)\<close>\<close>
  "remove_first P [] = []"
| "remove_first P (x # xs) = (if P x then xs else x # remove_first P xs)"

definition has_endpoint :: "string \<Rightarrow> user \<Rightarrow> bool" where
  "has_endpoint ep u = (endpoint (subscription u) = ep)"

definition findUserByEndpoint :: "db \<Rightarrow> string \<Rightarrow> user option" where
  "findUserByEndpoint data ep = find (has_endpoint ep) (users data)"

definition addOrUpdateUserInData :: "db \<Rightarrow> subscription \<Rightarrow> string \<Rightarrow> user \<times> db" where
  \<comment> \<open>\<open>fresh\<close> is the value of \<^verbatim>\<open>crypto.randomBytes(8).toString('hex')\<close>; the result
      is the returned user and the store after the call\<close>
  "addOrUpdateUserInData data sub fresh =
     (case findUserByEndpoint data (endpoint sub) of
        None \<Rightarrow>
          (let user = \<lparr>id_u = fresh, subscription = sub, reminders = []\<rparr>
           in (user, data\<lparr>users := users data @ [user]\<rparr>))
      | Some user \<Rightarrow>
          (user\<lparr>subscription := sub\<rparr>,
           data\<lparr>users := update_first (has_endpoint (endpoint sub))
                              (\<lambda>u. u\<lparr>subscription := sub\<rparr>) (users data)\<rparr>))"

section \<open>HTTP handlers\<close>

text \<open>
  A handler takes the request and the content of the store file, and returns the
  response together with the store it writes (\<open>None\<close> when it writes nothing).
\<close>

datatype body =
    UserId string
  | Reminders "reminder list"
  | Results "(string \<times> bool) list"
  | NoBody

record response =
  status :: nat
  success :: "bool option"
  error :: "string option"
  content :: body

definition subscribe :: "string \<Rightarrow> subscription \<Rightarrow> db option \<Rightarrow> response \<times> db option" where
  "subscribe fresh sub file =
     (if endpoint sub = [] then
        (\<lparr>status = 400, success = None, error = Some ''Invalid subscription'', content = NoBody\<rparr>,
         None)
      else
        (let db = readDB file;
             (user, db') = addOrUpdateUserInData db sub fresh
         in (\<lparr>status = 200, success = Some True, error = None, content = UserId (id_u user)\<rparr>,
             Some db')))"

record addReminderRequest =
  req_subscription :: "subscription option"
  req_time :: string
  req_timezoneOffsetMinutes :: "int option"
  req_repeatEveryMinutes :: "int option"
  req_repeatUntil :: "string option"

definition newRem :: "string \<Rightarrow> addReminderRequest \<Rightarrow> reminder" where
  \<comment> \<open>\<open>fresh\<close> is the value of \<^verbatim>\<open>crypto.randomBytes(6).toString('hex')\<close>\<close>
  "newRem fresh req =
     \<lparr>id_r = fresh,
      time = req_time req,
      timezoneOffsetMinutes =
        Some (case req_timezoneOffsetMinutes req of None \<Rightarrow> 0 | Some z \<Rightarrow> z),
      repeatEveryMinutes =
        Some (case req_repeatEveryMinutes req of None \<Rightarrow> 0 | Some n \<Rightarrow> n),
      repeatUntil =
        (case req_repeatUntil req of
           None \<Rightarrow> None
         | Some u \<Rightarrow> if u = [] then None else Some u),
      lastSentISO = None\<rparr>"

definition addReminder ::
  "string \<Rightarrow> string \<Rightarrow> addReminderRequest \<Rightarrow> db option \<Rightarrow> response \<times> db option" where
  "addReminder fresh_user fresh_rem req file =
     (case req_subscription req of
        None \<Rightarrow>
          (\<lparr>status = 400, success = None, error = Some ''subscription required'',
            content = NoBody\<rparr>, None)
      | Some sub \<Rightarrow>
          if endpoint sub = [] then
            (\<lparr>status = 400, success = None, error = Some ''subscription required'',
              content = NoBody\<rparr>, None)
          else if req_time req = [] then
            (\<lparr>status = 400, success = None, error = Some ''time (HH:MM) required'',
              content = NoBody\<rparr>, None)
          else
            (let db = readDB file;
                 (user, db') = addOrUpdateUserInData db sub fresh_user;
                 rems = reminders user @ [newRem fresh_rem req];
                 db'' = db'\<lparr>users := update_first (has_endpoint (endpoint sub))
                                        (\<lambda>u. u\<lparr>reminders := rems\<rparr>) (users db')\<rparr>
             in (\<lparr>status = 200, success = Some True, error = None, content = Reminders rems\<rparr>,
                 Some db'')))"

fun delete_loop :: "string \<Rightarrow> user list \<Rightarrow> user list \<times> bool" where
  \<comment> \<open>the loop over \<^verbatim>\<open>db.users\<close> with its \<^verbatim>\<open>break\<close>; the flag is \<^verbatim>\<open>changed\<close>\<close>
  "delete_loop rid [] = ([], False)"
| "delete_loop rid (u # us) =
     (if list_ex (\<lambda>r. id_r r = rid) (reminders u) then
        (u\<lparr>reminders := remove_first (\<lambda>r. id_r r = rid) (reminders u)\<rparr> # us, True)
      else (let (us', changed) = delete_loop rid us in (u # us', changed)))"

definition deleteReminder :: "string \<Rightarrow> db option \<Rightarrow> response \<times> db option" where
  \<comment> \<open>the request's \<^verbatim>\<open>id\<close>; a missing one is the empty string\<close>
  "deleteReminder rid file =
     (if rid = [] then
        (\<lparr>status = 400, success = Some False, error = Some ''id required'', content = NoBody\<rparr>,
         None)
      else
        (let db = readDB file;
             (us', changed) = delete_loop rid (users db)
         in if changed then
              (\<lparr>status = 200, success = Some True, error = None, content = NoBody\<rparr>,
               Some (db\<lparr>users := us'\<rparr>))
            else
              (\<lparr>status = 404, success = Some False, error = Some ''not found'',
                content = NoBody\<rparr>, None)))"

section \<open>Delivery\<close>

text \<open>
  \<^verbatim>\<open>webpush.sendNotification\<close> either resolves or rejects with an error that may
  carry a \<^verbatim>\<open>statusCode\<close>. What the push service answers is not the program's to
  decide: each run is given the outcome of every send as a function of the position of
  the send in the loops (each position is visited at most once).
\<close>

datatype outcome = Delivered | Failed "nat option"

definition gone :: "outcome \<Rightarrow> bool" where
  \<comment> \<open>\<^verbatim>\<open>err && (err.statusCode === 410 || err.statusCode === 404)\<close>\<close>
  "gone r = (case r of Delivered \<Rightarrow> False | Failed code \<Rightarrow> code = Some 410 \<or> code = Some 404)"

subsection \<open>The manual broadcast\<close>

fun broadcast_loop ::
  "(nat \<Rightarrow> outcome) \<Rightarrow> nat \<Rightarrow> user list \<Rightarrow> user list \<times> (string \<times> bool) list
     \<Rightarrow> user list \<times> (string \<times> bool) list" where
  \<comment> \<open>the loop over the copy of \<^verbatim>\<open>db.users\<close>, from its \<open>i\<close>-th user on; the state is
      \<^verbatim>\<open>db.users\<close> and \<^verbatim>\<open>results\<close>\<close>
  "broadcast_loop send i [] st = st"
| "broadcast_loop send i (user # rest) (us, results) =
     broadcast_loop send (Suc i) rest
       (case send i of
          Delivered \<Rightarrow> (us, results @ [(endpoint (subscription user), True)])
        | Failed code \<Rightarrow>
            (if gone (Failed code)
             then remove_first (has_endpoint (endpoint (subscription user))) us
             else us,
             results @ [(endpoint (subscription user), False)]))"

definition sendNotification ::
  "bool \<Rightarrow> (nat \<Rightarrow> outcome) \<Rightarrow> db option \<Rightarrow> response \<times> db option" where
  \<comment> \<open>\<open>vapid\<close>: both VAPID keys are set\<close>
  "sendNotification vapid send file =
     (if \<not> vapid then
        (\<lparr>status = 500, success = None, error = Some ''VAPID keys not set'', content = NoBody\<rparr>,
         None)
      else
        (let db = readDB file;
             (us', results) = broadcast_loop send 0 (users db) (users db, [])
         in (\<lparr>status = 200, success = Some True, error = None, content = Results results\<rparr>,
             Some (db\<lparr>users := us'\<rparr>))))"

subsection \<open>The scheduler tick\<close>

text \<open>
  The tick mutates reminder objects that are shared between \<^verbatim>\<open>db.users\<close> and the
  copies the loops iterate over, and removes users from \<^verbatim>\<open>db.users\<close> while it
  iterates. The state is therefore a store of the user objects, addressed by their
  position in the array at the start of the tick, and the array \<^verbatim>\<open>db.users\<close> as the
  list of the addresses it holds.
\<close>

record env =
  zone :: int
  vapid :: bool
  push :: "nat \<Rightarrow> nat \<Rightarrow> outcome"
  clock :: "nat \<Rightarrow> nat \<Rightarrow> int"

record tick_state =
  objs :: "user list"
  arr :: "nat list"

definition attempt :: "env \<Rightarrow> nat \<Rightarrow> nat \<Rightarrow> outcome" where
  \<comment> \<open>the inner \<^verbatim>\<open>try\<close>: the error thrown for missing keys has no status code\<close>
  "attempt e i j = (if \<not> vapid e then Failed None else push e i j)"

definition rem_body :: "env \<Rightarrow> int \<Rightarrow> nat \<Rightarrow> nat \<Rightarrow> tick_state \<Rightarrow> tick_state" where
  \<comment> \<open>the body of the inner loop for reminder \<open>j\<close> of user \<open>i\<close>; \<open>clock e i j\<close> is the
      value of \<^verbatim>\<open>new Date()\<close> after the send\<close>
  "rem_body e nowUtcMs i j st =
     (let user = objs st ! i;
          rem = reminders user ! j
      in if shouldFireReminder (zone e) rem nowUtcMs then
           (case attempt e i j of
              Delivered \<Rightarrow>
                st\<lparr>objs := (objs st)
                      [i := user\<lparr>reminders := (reminders user)
                              [j := rem\<lparr>lastSentISO := Some (clock e i j)\<rparr>]\<rparr>]\<rparr>
            | Failed code \<Rightarrow>
                if gone (Failed code) then
                  st\<lparr>arr := remove_first
                               (\<lambda>k. has_endpoint (endpoint (subscription user)) (objs st ! k))
                               (arr st)\<rparr>
                else st)
         else st)"

definition user_body :: "env \<Rightarrow> int \<Rightarrow> nat \<Rightarrow> tick_state \<Rightarrow> tick_state" where
  \<comment> \<open>the body of the outer loop: the inner loop over the copy of the user's reminders\<close>
  "user_body e nowUtcMs i st =
     fold (rem_body e nowUtcMs i) [0..<length (reminders (objs st ! i))] st"

definition tick_loop :: "env \<Rightarrow> int \<Rightarrow> user list \<Rightarrow> tick_state" where
  "tick_loop e nowUtcMs us =
     fold (user_body e nowUtcMs) [0..<length us] \<lparr>objs = us, arr = [0..<length us]\<rparr>"

definition cron_tick :: "env \<Rightarrow> int \<Rightarrow> db option \<Rightarrow> db" where
  \<comment> \<open>the store that the tick writes\<close>
  "cron_tick e nowUtcMs file =
     (let db = readDB file;
          st = tick_loop e nowUtcMs (users db)
      in db\<lparr>users := map (\<lambda>k. objs st ! k) (arr st)\<rparr>)"

section \<open>Notions used in the statements\<close>

subsection \<open>Times of day\<close>

text \<open>
  The text \<^verbatim>\<open>"HH:MM"\<close> of a time of day, with two digits each, as the data model
  writes the fields \<open>time\<close> and \<open>repeatUntil\<close>; and the minute of the day of the
  matcher's local time.
\<close>

definition digit_char :: "nat \<Rightarrow> char" where
  "digit_char d = char_of (48 + d)"

definition hhmm :: "nat \<Rightarrow> nat \<Rightarrow> string" where
  "hhmm h m =
     [digit_char (h div 10), digit_char (h mod 10), CHR '':'',
      digit_char (m div 10), digit_char (m mod 10)]"


subsection \<open>Views of the store\<close>

definition endpoints :: "user list \<Rightarrow> string list" where
  "endpoints us = map (\<lambda>u. endpoint (subscription u)) us"

definition reminder_ids :: "user list \<Rightarrow> string list" where
  "reminder_ids us = concat (map (\<lambda>u. map id_r (reminders u)) us)"

subsection \<open>What a tick leaves of a user\<close>

text \<open>
  What the scheduler is meant to leave, written without loops, to compare the loops
  with. \<open>after_tick e t i u\<close> is user \<open>u\<close>, the \<open>i\<close>-th of the store, after a tick at
  \<open>t\<close>: a reminder that matched and was delivered carries the clock reading of its
  send, every other reminder is as before (\<open>after_sends\<close> stops after the first \<open>k\<close>
  reminders). \<open>dropped e t i u\<close> says that some matched reminder of the user was
  answered with 410 or 404. \<open>objs_after\<close> and \<open>arr_after\<close> are the objects and the
  array after the first \<open>k\<close> users.
\<close>

definition matched :: "env \<Rightarrow> int \<Rightarrow> user \<Rightarrow> nat \<Rightarrow> bool" where
  "matched e nowUtcMs u j = shouldFireReminder (zone e) (reminders u ! j) nowUtcMs"

definition after_sends :: "env \<Rightarrow> int \<Rightarrow> nat \<Rightarrow> nat \<Rightarrow> user \<Rightarrow> user" where
  "after_sends e nowUtcMs i k u =
     u\<lparr>reminders :=
         map (\<lambda>j. if j < k \<and> matched e nowUtcMs u j \<and> attempt e i j = Delivered
                  then (reminders u ! j)\<lparr>lastSentISO := Some (clock e i j)\<rparr>
                  else reminders u ! j)
           [0..<length (reminders u)]\<rparr>"

definition after_tick :: "env \<Rightarrow> int \<Rightarrow> nat \<Rightarrow> user \<Rightarrow> user" where
  "after_tick e nowUtcMs i u = after_sends e nowUtcMs i (length (reminders u)) u"

definition dropped_by :: "env \<Rightarrow> int \<Rightarrow> nat \<Rightarrow> nat \<Rightarrow> user \<Rightarrow> bool" where
  "dropped_by e nowUtcMs i k u =
     list_ex (\<lambda>j. matched e nowUtcMs u j \<and> gone (attempt e i j)) [0..<k]"

definition dropped :: "env \<Rightarrow> int \<Rightarrow> nat \<Rightarrow> user \<Rightarrow> bool" where
  "dropped e nowUtcMs i u = dropped_by e nowUtcMs i (length (reminders u)) u"

definition objs_after :: "env \<Rightarrow> int \<Rightarrow> nat \<Rightarrow> user list \<Rightarrow> user list" where
  "objs_after e nowUtcMs k us =
     map (\<lambda>x. if x < k then after_tick e nowUtcMs x (us ! x) else us ! x) [0..<length us]"

definition arr_after :: "env \<Rightarrow> int \<Rightarrow> nat \<Rightarrow> user list \<Rightarrow> nat list" where
  "arr_after e nowUtcMs k us =
     filter (\<lambda>x. \<not> (x < k \<and> dropped e nowUtcMs x (us ! x))) [0..<length us]"

subsection \<open>Named inputs\<close>

text \<open>
  The instants used below: \<open>1704096000000\<close> is 2024-01-01T08:00:00Z, and
  \<open>1704182400000\<close> is 08:00:00Z of the next day. On 2024-01-01,
  \<open>1704076200000\<close> is 02:30:00Z, \<open>1704090600000\<close> is 06:30:00Z,
  \<open>1704092400000\<close> is 07:00:00Z, \<open>1704094200000\<close> is 07:30:00Z,
  \<open>1704095100000\<close> is 07:45:00Z, \<open>1704103200000\<close> is 10:00:00Z,
  \<open>1704108600000\<close> is 11:30:00Z and \<open>1704128400000\<close> is 17:00:00Z. A host
  zone of \<open>330\<close> is UTC+05:30.
\<close>

definition scenario_0800 :: reminder where
  "scenario_0800 =
     \<lparr>id_r = ''r1'', time = ''08:00'', timezoneOffsetMinutes = Some 0,
      repeatEveryMinutes = Some 0, repeatUntil = None, lastSentISO = None\<rparr>"

definition offset_plus60 :: reminder where
  "offset_plus60 =
     \<lparr>id_r = ''r3'', time = ''09:00'', timezoneOffsetMinutes = Some 60,
      repeatEveryMinutes = Some 0, repeatUntil = None, lastSentISO = None\<rparr>"

definition backwards_window :: reminder where
  "backwards_window =
     \<lparr>id_r = ''r4'', time = ''17:00'', timezoneOffsetMinutes = Some 0,
      repeatEveryMinutes = Some 30, repeatUntil = Some ''09:00'', lastSentISO = None\<rparr>"

definition every_30 :: reminder where
  "every_30 =
     \<lparr>id_r = ''r5'', time = ''09:00'', timezoneOffsetMinutes = Some (- 120),
      repeatEveryMinutes = Some 30, repeatUntil = None, lastSentISO = None\<rparr>"

definition alice :: user where
  "alice =
     \<lparr>id_u = ''u1'', subscription = \<lparr>endpoint = ''https://push.example/a'', keys = ''ka''\<rparr>,
      reminders = [scenario_0800, every_30]\<rparr>"

definition bob :: user where
  "bob =
     \<lparr>id_u = ''u2'', subscription = \<lparr>endpoint = ''https://push.example/b'', keys = ''kb''\<rparr>,
      reminders = [backwards_window]\<rparr>"

definition carol :: user where
  "carol =
     \<lparr>id_u = ''u3'', subscription = \<lparr>endpoint = ''https://push.example/c'', keys = ''kc''\<rparr>,
      reminders = [scenario_0800]\<rparr>"

definition store2 :: db where
  "store2 = \<lparr>users = [alice, bob]\<rparr>"

definition alice_again :: subscription where
  "alice_again = \<lparr>endpoint = ''https://push.example/a'', keys = ''ka2''\<rparr>"

definition slow_send :: env where
  "slow_send =
     \<lparr>zone = 0, vapid = True, push = (\<lambda>i j. Delivered), clock = (\<lambda>i j. 1704096000250)\<rparr>"

definition alice_gone :: env where
  "alice_gone =
     \<lparr>zone = 0, vapid = True,
      push = (\<lambda>i j. if i = 0 then Failed (Some 410) else Delivered),
      clock = (\<lambda>i j. 1704096000250)\<rparr>"

definition second_send_fails :: env where
  "second_send_fails =
     \<lparr>zone = 0, vapid = True,
      push = (\<lambda>i j. if j = 0 then Delivered else Failed (Some 500)),
      clock = (\<lambda>i j. 1704096000250)\<rparr>"

definition transient_failure :: env where
  "transient_failure =
     \<lparr>zone = 0, vapid = True, push = (\<lambda>i j. Failed (Some 500)),
      clock = (\<lambda>i j. 1704096000250)\<rparr>"




section \<open>The matcher: branches and arithmetic\<close>

text \<open>
  The power by repeated squaring, which the rounding uses, is the power.
\<close>

lemma pow_sq_power: "0 \<le> k \<Longrightarrow> pow_sq b k = b ^ nat k"
proof (induction b k rule: pow_sq.induct)
  case (1 b k)
  show ?case
  proof (cases "k \<le> 0")
    case True
    then show ?thesis using 1 by (subst pow_sq.simps) simp
  next
    case False
    then have ih: "pow_sq b (k div 2) = b ^ (nat k div 2)"
      using 1 by (simp add: nat_div_distrib)
    show ?thesis
    proof (cases "even k")
      case True
      then have "even (nat k)" using False by (simp add: even_nat_iff)
      then have "b ^ nat k = b ^ (nat k div 2) * b ^ (nat k div 2)"
        by (metis power_add mult_2 dvd_mult_div_cancel)
      then show ?thesis using False True ih
        by (subst pow_sq.simps) (simp add: Let_def)
    next
      case odd: False
      then have "odd (nat k)" using False by (simp add: even_nat_iff)
      then have "b ^ nat k = b * b ^ (nat k div 2) * b ^ (nat k div 2)"
        by (metis power_add power_Suc mult_2 odd_two_times_div_two_succ Suc_eq_plus1 mult.assoc)
      then show ?thesis using False odd ih
        by (subst pow_sq.simps) (simp add: Let_def)
    qed
  qed
qed

text \<open>
  A time of day written \<^verbatim>\<open>HH:MM\<close> parses to its hour and its minute: the two parts
  are decimal literals without sign, point or exponent, and whole numbers below 60 are
  doubles.
\<close>

lemma of_char_digit_char: "a < 10 \<Longrightarrow> (of_char (digit_char a) :: nat) = 48 + a"
  by (simp add: digit_char_def)

lemma digit_char_neq:
  "a < 10 \<Longrightarrow> (of_char c :: nat) < 48 \<or> 57 < (of_char c :: nat) \<Longrightarrow> digit_char a \<noteq> c"
  using of_char_digit_char [of a] by auto

lemma digit_of_digit_char: "a < 10 \<Longrightarrow> digit_of 10 (digit_char a) = Some a"
  by (simp add: digit_of_def of_char_digit_char)

lemma digit_char_plain:
  assumes "a < 10"
  shows "\<not> StrWhiteSpaceChar (digit_char a)" "\<not> is_exp_char (digit_char a)"
    "digit_char a \<noteq> CHR '':''" "digit_char a \<noteq> CHR ''.''"
    "digit_char a \<noteq> CHR ''+''" "digit_char a \<noteq> CHR ''-''"
    "digit_char a \<noteq> CHR ''b''" "digit_char a \<noteq> CHR ''B''"
    "digit_char a \<noteq> CHR ''o''" "digit_char a \<noteq> CHR ''O''"
    "digit_char a \<noteq> CHR ''x''" "digit_char a \<noteq> CHR ''X''"
  using assms
  by (simp_all add: StrWhiteSpaceChar_def is_exp_char_def of_char_digit_char digit_char_neq)

lemma RoundMV_small: "list_all (\<lambda>n. RoundMV (of_int n) = Num (of_int n)) [0..59]"
  by code_simp

lemma NonDecimal_two_digits:
  "b < 10 \<Longrightarrow> NonDecimalIntegerLiteral [c, digit_char b] = None"
  by (simp add: NonDecimalIntegerLiteral_def digit_char_plain)

lemma Mantissa_two_digits:
  assumes "a < 10" and "b < 10"
  shows "Mantissa [digit_char a, digit_char b] = Some (of_int (int a * 10 + int b))"
  using assms
  by (simp add: Mantissa_def digits_def digit_of_digit_char digit_char_plain Let_def)

lemma StringNumericLiteral_two_digits:
  assumes "a < 10" and "b < 10"
  shows "StringNumericLiteral [digit_char a, digit_char b] = Num (of_int (int a * 10 + int b))"
  using assms
  by (simp add: StringNumericLiteral_def NonDecimal_two_digits StrDecimalLiteral_def
      StrUnsignedDecimalLiteral_def Mantissa_two_digits digit_char_plain Let_def)

lemma Number_two_digits:
  assumes "a < 10" and "b < 10" and "10 * a + b < 60"
  shows "Number_str [digit_char a, digit_char b] = Num (of_nat (10 * a + b))"
proof -
  have t: "trim [digit_char a, digit_char b] = [digit_char a, digit_char b]"
    using assms by (simp add: trim_def digit_char_plain)
  have "int a * 10 + int b \<in> set [0..59]" using assms by simp
  then have "RoundMV (of_int (int a * 10 + int b)) = Num (of_int (int a * 10 + int b))"
    using RoundMV_small unfolding list_all_iff by blast
  moreover have "(of_int (int a * 10 + int b) :: rat) = of_nat (10 * a + b)" by simp
  ultimately show ?thesis
    using assms by (simp add: Number_str_def t StringNumericLiteral_two_digits)
qed

lemma parseHM_hhmm:
  assumes "h < 60" and "m < 60"
  shows "parseHM (hhmm h m) = (N (Num (of_nat h)), N (Num (of_nat m)))"
proof -
  have d: "h div 10 < 10" "h mod 10 < 10" "m div 10 < 10" "m mod 10 < 10"
    using assms by simp_all
  have s: "split_colon (hhmm h m) =
             [[digit_char (h div 10), digit_char (h mod 10)],
              [digit_char (m div 10), digit_char (m mod 10)]]"
    using d by (simp add: hhmm_def digit_char_plain)
  have "Number_str [digit_char (h div 10), digit_char (h mod 10)] = Num (of_nat h)"
    using Number_two_digits [of "h div 10" "h mod 10"] d assms by simp
  moreover have "Number_str [digit_char (m div 10), digit_char (m mod 10)] = Num (of_nat m)"
    using Number_two_digits [of "m div 10" "m mod 10"] d assms by simp
  ultimately show ?thesis by (simp add: parseHM_def s element_def)
qed


lemma hhmm_nonempty: "hhmm h m \<noteq> []"
  by (simp add: hhmm_def)

lemma startHM_hhmm:
  "time rem = hhmm h m \<Longrightarrow> h < 60 \<Longrightarrow> m < 60 \<Longrightarrow>
   startHM rem = (N (Num (of_nat h)), N (Num (of_nat m)))"
  by (simp add: startHM_def hhmm_nonempty parseHM_hhmm)

lemma strict_eq_nat: "strict_eq a (N (Num (of_nat h))) = (a = Some (int h))"
proof (cases a)
  case None
  then show ?thesis by (simp add: strict_eq_def)
next
  case (Some i)
  have "(of_int i = (of_nat h :: rat)) = (i = int h)"
    by (metis of_int_of_nat_eq of_int_eq_iff)
  then show ?thesis using Some by (simp add: strict_eq_def)
qed








lemma shouldFire_once:
  "not_repeating rem \<Longrightarrow>
   shouldFireReminder host rem now =
     (strict_eq (getHours host (Date_ms (userLocalMs rem now))) (fst (startHM rem)) \<and>
      strict_eq (getMinutes host (Date_ms (userLocalMs rem now))) (snd (startHM rem)) \<and>
      \<not> debounced rem now)"
  by (simp add: shouldFireReminder_def Let_def split: prod.splits)


text \<open>
  A reminder that does not repeat, with its time written \<^verbatim>\<open>HH:MM\<close>: it fires exactly
  when the shifted instant is in the range of \<^verbatim>\<open>Date\<close>, its hour and minute in the
  zone of the host are \<open>h\<close> and \<open>m\<close>, and no send is recorded in the last 70 seconds.
\<close>

lemma shouldFire_once_closed:
  assumes "not_repeating rem" and "time rem = hhmm h m" and "h < 24" and "m < 60"
  shows "shouldFireReminder hz rem now =
     (\<bar>now - tz_of rem * 60000\<bar> \<le> 8640000000000000 \<and>
      ((now - tz_of rem * 60000 + hz * 60000) div 3600000) mod 24 = int h \<and>
      ((now - tz_of rem * 60000 + hz * 60000) div 60000) mod 60 = int m \<and>
      (case lastSentISO rem of None \<Rightarrow> True | Some lastMs \<Rightarrow> 70000 \<le> now - lastMs))"
proof -
  have p: "startHM rem = (N (Num (of_nat h)), N (Num (of_nat m)))"
    using assms by (simp add: startHM_hhmm)
  have u: "userLocalMs rem now = now - tz_of rem * 60000" by (simp add: userLocalMs_def)
  show ?thesis
    unfolding shouldFire_once [OF assms(1)] p u fst_conv snd_conv strict_eq_nat
    by (auto simp add: getHours_def getMinutes_def Date_ms_def TimeClip_def LocalTime_def
        msPerHour_def msPerMinute_def debounced_def split: option.splits)
qed












text \<open>
  The parser rounds as \<^verbatim>\<open>Number\<close> does, to the nearest double: a time whose hour
  is written with more digits than a double holds is the time of the rounded hour. The
  range of \<^verbatim>\<open>Date\<close> is the one of the language: a time, an end of the window or an
  offset that takes a date out of it gives an invalid date, with which every comparison
  is false. So a reminder with such a time or offset never fires, and an end of the
  window of that kind is no end.
\<close>

lemma Number_rounds:
  "Number_str ''8.0000000000000000001'' = Num 8 \<and>
   Number_str ''9007199254740993'' = Num 9007199254740992"
  by code_simp

lemma rounding_and_range:
  "shouldFireReminder 0 (scenario_0800\<lparr>time := ''08.0000000000000000001:00''\<rparr>) 1704096000000 \<and>
   \<not> shouldFireReminder 0 (scenario_0800\<lparr>timezoneOffsetMinutes := Some 288000000000\<rparr>) 1704096000000 \<and>
   \<not> shouldFireReminder 0 (every_30\<lparr>time := ''-1e10:00''\<rparr>) 1704092400000 \<and>
   shouldFireReminder 0 (every_30\<lparr>repeatUntil := Some ''-1e10:00''\<rparr>) 1704092400000"
proof -
  have a: "shouldFireReminder 0 (scenario_0800\<lparr>time := ''08.0000000000000000001:00''\<rparr>) 1704096000000"
    unfolding scenario_0800_def by code_simp
  have b: "\<not> shouldFireReminder 0 (scenario_0800\<lparr>timezoneOffsetMinutes := Some 288000000000\<rparr>) 1704096000000"
    unfolding scenario_0800_def by code_simp
  have c: "\<not> shouldFireReminder 0 (every_30\<lparr>time := ''-1e10:00''\<rparr>) 1704092400000"
    unfolding every_30_def by code_simp
  have d: "shouldFireReminder 0 (every_30\<lparr>repeatUntil := Some ''-1e10:00''\<rparr>) 1704092400000"
    unfolding every_30_def by code_simp
  from a b c d show ?thesis by blast
qed

section \<open>Properties of the matcher\<close>

text \<open>
  Claim C1. The claim reads the local time from the instant and the reminder's offset
  alone, and gives the scenario \<^verbatim>\<open>{time: "08:00", timezoneOffsetMinutes: 0}\<close>: fires at
  2024-01-01T08:00:00Z, does not fire 30 seconds later once that instant is recorded
  in \<open>lastSentISO\<close>, fires again at 08:00:00Z of the next day. The matcher reads the
  hour and the minute in the zone of the host. On a host in UTC the scenario holds,
  and the reminder fires from 08:00:00.000Z to 08:00:59.999Z and not one millisecond
  before or after. On a host at UTC+05:30 the same reminder does not fire at
  08:00:00Z; it fires at 02:30:00Z, when the clock of the host reads 08:00.
\<close>

theorem C1_fire_once_host_zone:
  "shouldFireReminder 0 scenario_0800 1704096000000
   \<and> \<not> shouldFireReminder 0 (scenario_0800\<lparr>lastSentISO := Some 1704096000000\<rparr>) 1704096030000
   \<and> shouldFireReminder 0 (scenario_0800\<lparr>lastSentISO := Some 1704096000000\<rparr>) 1704182400000
   \<and> \<not> shouldFireReminder 0 scenario_0800 1704095999999
   \<and> shouldFireReminder 0 scenario_0800 1704096059999
   \<and> \<not> shouldFireReminder 0 scenario_0800 1704096060000
   \<and> \<not> shouldFireReminder 330 scenario_0800 1704096000000
   \<and> shouldFireReminder 330 scenario_0800 1704076200000"
proof -
  have first: "shouldFireReminder 0 scenario_0800 1704096000000"
    unfolding scenario_0800_def by code_simp
  have again: "\<not> shouldFireReminder 0 (scenario_0800\<lparr>lastSentISO := Some 1704096000000\<rparr>) 1704096030000"
    unfolding scenario_0800_def by code_simp
  have next_day: "shouldFireReminder 0 (scenario_0800\<lparr>lastSentISO := Some 1704096000000\<rparr>) 1704182400000"
    unfolding scenario_0800_def by code_simp
  have before: "\<not> shouldFireReminder 0 scenario_0800 1704095999999"
    unfolding scenario_0800_def by code_simp
  have last_ms: "shouldFireReminder 0 scenario_0800 1704096059999"
    unfolding scenario_0800_def by code_simp
  have after: "\<not> shouldFireReminder 0 scenario_0800 1704096060000"
    unfolding scenario_0800_def by code_simp
  have east: "\<not> shouldFireReminder 330 scenario_0800 1704096000000"
    unfolding scenario_0800_def by code_simp
  have east_early: "shouldFireReminder 330 scenario_0800 1704076200000"
    unfolding scenario_0800_def by code_simp
  from first again next_day before last_ms after east east_early show ?thesis by blast
qed

lemma startHM_repeatUntil [simp]: "startHM (rem\<lparr>repeatUntil := u\<rparr>) = startHM rem"
  by (simp add: startHM_def)

lemma userLocalMs_repeatUntil [simp]:
  "userLocalMs (rem\<lparr>repeatUntil := u\<rparr>) now = userLocalMs rem now"
  by (simp add: userLocalMs_def tz_of_def)

lemma debounced_repeatUntil [simp]: "debounced (rem\<lparr>repeatUntil := u\<rparr>) now = debounced rem now"
  by (simp add: debounced_def)

text \<open>
  Claim C10. For a reminder whose \<open>repeatEveryMinutes\<close> is unset, zero or negative, the
  result does not depend on \<open>repeatUntil\<close>: setting the field to any value gives the
  result of the reminder without it.
\<close>

theorem C10_repeatUntil_ignored:
  assumes "\<forall>n. repeatEveryMinutes rem = Some n \<longrightarrow> n \<le> 0"
  shows "shouldFireReminder hz (rem\<lparr>repeatUntil := u\<rparr>) now =
         shouldFireReminder hz (rem\<lparr>repeatUntil := None\<rparr>) now"
proof -
  have "not_repeating (rem\<lparr>repeatUntil := v\<rparr>)" for v
    using assms by (simp add: not_repeating_def split: option.splits)
  then show ?thesis by (simp add: shouldFire_once)
qed

theorem C10_repeatUntil_ignored_witness:
  "repeatEveryMinutes scenario_0800 = Some 0 \<and>
   shouldFireReminder 0 (scenario_0800\<lparr>repeatUntil := Some ''07:00''\<rparr>) 1704096000000 =
   shouldFireReminder 0 (scenario_0800\<lparr>repeatUntil := None\<rparr>) 1704096000000 \<and>
   shouldFireReminder 0 (scenario_0800\<lparr>repeatUntil := Some ''07:00''\<rparr>) 1704096000000 = True"
proof -
  have h: "\<forall>n. repeatEveryMinutes scenario_0800 = Some n \<longrightarrow> n \<le> 0"
    by (simp add: scenario_0800_def)
  have v: "shouldFireReminder 0 (scenario_0800\<lparr>repeatUntil := None\<rparr>) 1704096000000"
    unfolding scenario_0800_def by code_simp
  from v C10_repeatUntil_ignored [OF h, of 0 "Some ''07:00''" 1704096000000]
  show ?thesis by (simp add: scenario_0800_def)
qed

text \<open>
  The offset is subtracted on the way to local time and added on the way back. So a
  reminder whose offset is larger by \<open>k\<close> minutes behaves, \<open>k\<close> minutes later in UTC,
  as the original does now.
\<close>

lemma tz_shift:
  "shouldFireReminder hz
     (rem\<lparr>timezoneOffsetMinutes := Some (tz_of rem + k),
          lastSentISO := map_option (\<lambda>t. t + k * 60000) (lastSentISO rem)\<rparr>)
     (now + k * 60000)
   = shouldFireReminder hz rem now"
proof -
  let ?r = "rem\<lparr>timezoneOffsetMinutes := Some (tz_of rem + k),
          lastSentISO := map_option (\<lambda>t. t + k * 60000) (lastSentISO rem)\<rparr>"
  have tz: "tz_of ?r = tz_of rem + k" by (simp add: tz_of_def)
  have u: "userLocalMs ?r (now + k * 60000) = userLocalMs rem now"
    by (simp only: userLocalMs_def tz) (simp add: algebra_simps)
  have hm: "startHM ?r = startHM rem" by (simp add: startHM_def)
  have nr: "not_repeating ?r = not_repeating rem" by (simp add: not_repeating_def)
  have db: "debounced ?r (now + k * 60000) = debounced rem now"
    by (simp add: debounced_def split: option.splits)
  have sc: "scheduledUtcMs hz ?r (now + k * 60000) =
            map_option (\<lambda>t. t + k * 60000) (scheduledUtcMs hz rem now)"
    by (simp only: scheduledUtcMs_def u hm tz Let_def)
       (simp add: option.map_comp comp_def algebra_simps split: prod.splits)
  have un: "untilUtcMs hz ?r v (now + k * 60000) =
            map_option (\<lambda>t. t + k * 60000) (untilUtcMs hz rem v now)" for v
    by (simp only: untilUtcMs_def u tz Let_def)
       (simp add: option.map_comp comp_def algebra_simps split: prod.splits)
  have pu: "past_until hz ?r (now + k * 60000) = past_until hz rem now"
    by (simp add: past_until_def un split: option.splits)
  show ?thesis
    unfolding shouldFireReminder_def u hm nr db sc pu
    by (simp add: Let_def split: prod.splits option.splits)
qed

text \<open>
  Claim C4 says that the local time is the UTC instant plus \<open>timezoneOffsetMinutes\<close>.
  With an offset of 60 and the time 09:00, the local time at 08:00Z would then be 09:00:
  the matcher's local time is another one, the reminder does not fire at 08:00Z, and it
  fires at 10:00Z.
\<close>

theorem C4_offset_counterexample:
  "userLocalMs offset_plus60 1704096000000 \<noteq> 1704096000000 + 60 * 60 * 1000 \<and>
   \<not> shouldFireReminder 0 offset_plus60 1704096000000 \<and>
   shouldFireReminder 0 offset_plus60 1704103200000"
proof -
  have a: "userLocalMs offset_plus60 1704096000000 \<noteq> 1704096000000 + 60 * 60 * 1000"
    by (simp add: userLocalMs_def tz_of_def offset_plus60_def)
  have b: "\<not> shouldFireReminder 0 offset_plus60 1704096000000"
    unfolding offset_plus60_def by code_simp
  have c: "shouldFireReminder 0 offset_plus60 1704103200000"
    unfolding offset_plus60_def by code_simp
  from a b c show ?thesis by blast
qed

text \<open>
  Claim C4, amended: the matcher's local time is the UTC instant minus
  \<open>timezoneOffsetMinutes\<close>, for offsets of either sign; raising the offset by \<open>k\<close>
  minutes moves every firing instant \<open>k\<close> minutes later in UTC.
\<close>

theorem C4_offset_subtracted:
  "userLocalMs rem now = now - tz_of rem * 60 * 1000 \<and>
   shouldFireReminder hz
     (rem\<lparr>timezoneOffsetMinutes := Some (tz_of rem + k),
          lastSentISO := map_option (\<lambda>t. t + k * 60000) (lastSentISO rem)\<rparr>)
     (now + k * 60000)
   = shouldFireReminder hz rem now"
  using tz_shift by (simp add: userLocalMs_def)

text \<open>
  Claim C5. The claim makes the result a function of the reminder and the instant
  alone, whatever the time zone of the host. The matcher reads the hour, the minute
  and the day through the local getters and the local constructor of \<^verbatim>\<open>Date\<close>, in
  both branches. With equal arguments, a reminder that does not repeat fires on a host
  in UTC and not on a host at UTC+05:30; a repeating reminder, half an hour before its
  start, does not fire on a host in UTC and fires on a host at UTC+05:30.
\<close>

theorem C5_host_zone_dependence:
  "shouldFireReminder 0 offset_plus60 1704103200000
   \<and> \<not> shouldFireReminder 330 offset_plus60 1704103200000
   \<and> \<not> shouldFireReminder 0 every_30 1704090600000
   \<and> shouldFireReminder 330 every_30 1704090600000"
proof -
  have a: "shouldFireReminder 0 offset_plus60 1704103200000"
    unfolding offset_plus60_def by code_simp
  have b: "\<not> shouldFireReminder 330 offset_plus60 1704103200000"
    unfolding offset_plus60_def by code_simp
  have c: "\<not> shouldFireReminder 0 every_30 1704090600000"
    unfolding every_30_def by code_simp
  have d: "shouldFireReminder 330 every_30 1704090600000"
    unfolding every_30_def by code_simp
  from a b c d show ?thesis by blast
qed





text \<open>
  The instants left out on a host that is not in UTC are of this kind: on a host at
  UTC+05:00, with the window from 06:00 back to 01:00 and an offset of
  \<open>144028401540\<close> minutes (some 274000 years), the shifted instant at
  2024-01-01T08:00:00Z is one hour after the first instant of the range of
  \<^verbatim>\<open>Date\<close>; the start of the window is that very instant, its end is before the
  range, and the reminder fires.
\<close>

lemma window_at_start_of_range:
  "shouldFireReminder 300
     (backwards_window\<lparr>time := ''06:00'', repeatUntil := Some ''01:00'',
                       timezoneOffsetMinutes := Some 144028401540\<rparr>) 1704096000000"
  unfolding backwards_window_def by code_simp

section \<open>Properties of the store operations\<close>

text \<open>
  The loop of \<^verbatim>\<open>/deleteReminder\<close> changes nothing and leaves \<^verbatim>\<open>changed\<close> false when
  no reminder has the id.
\<close>

lemma delete_loop_absent:
  "rid \<notin> set (reminder_ids us) \<Longrightarrow> delete_loop rid us = (us, False)"
  by (induction us) (auto simp add: reminder_ids_def list_ex_iff)

text \<open>
  Claim C7 says that every id that no reminder of the store has is answered with 404.
  The handler first rejects a request whose id is missing or empty: the empty id is the
  id of no reminder of \<open>store2\<close>, and the answer is 400.
\<close>

theorem C7_delete_missing_counterexample:
  "[] \<notin> set (reminder_ids (users store2)) \<and>
   status (fst (deleteReminder [] (Some store2))) = 400 \<and>
   snd (deleteReminder [] (Some store2)) = None"
  by (simp add: deleteReminder_def reminder_ids_def store2_def alice_def bob_def
      scenario_0800_def every_30_def backwards_window_def)

text \<open>
  Claim C7, amended: for an id that no reminder of the store has,
  \<^verbatim>\<open>/deleteReminder\<close> writes nothing and answers \<^verbatim>\<open>success: false\<close>, with status 404
  when the id is not empty and with status 400 when it is missing or empty.
\<close>

theorem C7_delete_missing:
  assumes "rid \<notin> set (reminder_ids (users (readDB file)))"
  shows "snd (deleteReminder rid file) = None \<and>
         success (fst (deleteReminder rid file)) = Some False \<and>
         status (fst (deleteReminder rid file)) = (if rid = [] then 400 else 404)"
  using delete_loop_absent [OF assms] by (simp add: deleteReminder_def)

theorem C7_delete_missing_witness:
  "''zz'' \<notin> set (reminder_ids (users (readDB (Some store2)))) \<and>
   snd (deleteReminder ''zz'' (Some store2)) = None \<and>
   success (fst (deleteReminder ''zz'' (Some store2))) = Some False \<and>
   status (fst (deleteReminder ''zz'' (Some store2))) = 404"
proof -
  have h: "''zz'' \<notin> set (reminder_ids (users (readDB (Some store2))))"
    by (simp add: readDB_def reminder_ids_def store2_def alice_def bob_def
        scenario_0800_def every_30_def backwards_window_def)
  from h C7_delete_missing [OF h] show ?thesis by simp
qed

text \<open>
  Upserts: the object that \<^verbatim>\<open>findUserByEndpoint\<close> returns is the first user with the
  endpoint; when the endpoints of the store are distinct it is the only one.
\<close>

lemma update_first_length [simp]: "length (update_first P f xs) = length xs"
  by (induction xs) auto

lemma update_first_map:
  "(\<And>x. g (f x) = g x) \<Longrightarrow> map g (update_first P f xs) = map g xs"
  by (induction xs) auto

lemma find_update_first:
  "find P xs = Some x \<Longrightarrow> P (f x) \<Longrightarrow> find P (update_first P f xs) = Some (f x)"
  by (induction xs) (auto split: if_splits)

lemma filter_has_endpoint_single:
  "distinct (endpoints us) \<Longrightarrow> find (has_endpoint ep) us = Some u \<Longrightarrow>
   filter (has_endpoint ep) us = [u]"
proof (induction us)
  case Nil
  then show ?case by simp
next
  case (Cons v vs)
  show ?case
  proof (cases "has_endpoint ep v")
    case True
    then have "u = v" using Cons.prems(2) by simp
    moreover have "filter (has_endpoint ep) vs = []"
      using True Cons.prems(1)
      by (force simp add: endpoints_def has_endpoint_def filter_empty_conv image_iff)
    ultimately show ?thesis using True by simp
  next
    case False
    then show ?thesis using Cons by (simp add: endpoints_def)
  qed
qed

lemma find_None_filter:
  "find P xs = None \<Longrightarrow> filter P xs = []"
  by (induction xs) (auto split: if_splits)

lemma endpoints_update_subscription:
  "endpoint sub = ep \<Longrightarrow>
   endpoints (update_first (has_endpoint ep) (\<lambda>u. u\<lparr>subscription := sub\<rparr>) us) = endpoints us"
  by (induction us) (auto simp add: endpoints_def has_endpoint_def)

lemma upsert_existing:
  assumes "findUserByEndpoint data (endpoint sub) = Some u0"
  shows "addOrUpdateUserInData data sub fresh =
           (u0\<lparr>subscription := sub\<rparr>,
            data\<lparr>users := update_first (has_endpoint (endpoint sub))
                               (\<lambda>u. u\<lparr>subscription := sub\<rparr>) (users data)\<rparr>)"
  using assms by (simp add: addOrUpdateUserInData_def)

lemma upsert_new:
  assumes "findUserByEndpoint data (endpoint sub) = None"
  shows "addOrUpdateUserInData data sub fresh =
           (\<lparr>id_u = fresh, subscription = sub, reminders = []\<rparr>,
            data\<lparr>users := users data @ [\<lparr>id_u = fresh, subscription = sub, reminders = []\<rparr>]\<rparr>)"
  using assms by (simp add: addOrUpdateUserInData_def Let_def)

lemma find_None_endpoints:
  "find (has_endpoint ep) us = None \<Longrightarrow> ep \<notin> set (endpoints us)"
  by (induction us) (auto simp add: endpoints_def has_endpoint_def split: if_splits)

lemma find_append_new:
  "find P xs = None \<Longrightarrow> P x \<Longrightarrow> find P (xs @ [x]) = Some x"
  by (induction xs) (auto split: if_splits)

text \<open>The endpoints of the store stay distinct, and after an upsert the endpoint is found.\<close>

lemma upsert_invariant:
  assumes "distinct (endpoints (users data))"
  shows "distinct (endpoints (users (snd (addOrUpdateUserInData data sub fresh)))) \<and>
         findUserByEndpoint (snd (addOrUpdateUserInData data sub fresh)) (endpoint sub) =
           Some (fst (addOrUpdateUserInData data sub fresh))"
proof (cases "findUserByEndpoint data (endpoint sub)")
  case None
  then have "endpoint sub \<notin> set (endpoints (users data))"
    by (simp add: findUserByEndpoint_def find_None_endpoints)
  then show ?thesis using assms None
    by (simp add: upsert_new [OF None] findUserByEndpoint_def find_append_new has_endpoint_def
        endpoints_def)
next
  case (Some u0)
  then show ?thesis using assms
    by (simp add: upsert_existing [OF Some] endpoints_update_subscription findUserByEndpoint_def
        find_update_first has_endpoint_def)
qed

lemma update_first_distinct:
  "distinct (endpoints us) \<Longrightarrow>
   update_first (has_endpoint ep) f us = map (\<lambda>u. if has_endpoint ep u then f u else u) us"
proof (induction us)
  case Nil
  then show ?case by simp
next
  case (Cons v vs)
  show ?case
  proof (cases "has_endpoint ep v")
    case True
    have "\<forall>u\<in>set vs. \<not> has_endpoint ep u"
      using True Cons.prems by (force simp add: endpoints_def has_endpoint_def image_iff)
    then have "map (\<lambda>u. if has_endpoint ep u then f u else u) vs = vs"
      by (simp add: map_idI)
    then show ?thesis using True by simp
  next
    case False
    then show ?thesis using Cons by (simp add: endpoints_def)
  qed
qed

text \<open>
  Claim C6. In a store whose endpoints are distinct, an upsert of a subscription whose
  endpoint exists returns the existing user with the new subscription: the same id, the
  same reminders, every other user untouched, no user added. After any upsert the store
  has exactly one user for the endpoint, and a second upsert for the same endpoint
  returns that user again, with its id. \<^verbatim>\<open>/subscribe\<close> answers with that id and writes
  that store; \<^verbatim>\<open>/addReminder\<close> writes it with the new reminder appended to the
  user's reminders.
\<close>

theorem C6_upsert_keeps_user:
  assumes inv: "distinct (endpoints (users data))"
    and r1: "addOrUpdateUserInData data sub fresh = (user, data')"
    and r2: "addOrUpdateUserInData data' sub2 fresh2 = (user2, data'')"
    and same: "endpoint sub2 = endpoint sub"
  shows "(\<forall>u0. findUserByEndpoint data (endpoint sub) = Some u0 \<longrightarrow>
            user = u0\<lparr>subscription := sub\<rparr> \<and>
            id_u user = id_u u0 \<and> reminders user = reminders u0 \<and>
            users data' =
              map (\<lambda>u. if has_endpoint (endpoint sub) u then u\<lparr>subscription := sub\<rparr> else u)
                (users data))
         \<and> filter (has_endpoint (endpoint sub)) (users data') = [user]
         \<and> user2 = user\<lparr>subscription := sub2\<rparr>
         \<and> id_u user2 = id_u user \<and> reminders user2 = reminders user
         \<and> users data'' =
              map (\<lambda>u. if has_endpoint (endpoint sub) u then u\<lparr>subscription := sub2\<rparr> else u)
                (users data')
         \<and> filter (has_endpoint (endpoint sub)) (users data'') = [user2]
         \<and> (endpoint sub \<noteq> [] \<longrightarrow>
              subscribe fresh sub (Some data) =
                (\<lparr>status = 200, success = Some True, error = None, content = UserId (id_u user)\<rparr>,
                 Some data'))
         \<and> (endpoint sub \<noteq> [] \<and> req_subscription req = Some sub \<and> req_time req \<noteq> [] \<longrightarrow>
              snd (addReminder fresh fresh_rem req (Some data)) =
                Some (data'\<lparr>users :=
                  map (\<lambda>u. if has_endpoint (endpoint sub) u
                            then u\<lparr>reminders := reminders user @ [newRem fresh_rem req]\<rparr> else u)
                    (users data')\<rparr>))"
proof -
  have existing: "user = u0\<lparr>subscription := sub\<rparr> \<and>
            id_u user = id_u u0 \<and> reminders user = reminders u0 \<and>
            users data' =
              map (\<lambda>u. if has_endpoint (endpoint sub) u then u\<lparr>subscription := sub\<rparr> else u)
                (users data)"
    if f: "findUserByEndpoint data (endpoint sub) = Some u0" for u0
    using r1 inv unfolding upsert_existing [OF f] by (auto simp add: update_first_distinct)
  have inv1: "distinct (endpoints (users data'))"
    and found1: "findUserByEndpoint data' (endpoint sub) = Some user"
    using upsert_invariant [OF inv, of sub fresh] by (simp_all add: r1)
  have one: "filter (has_endpoint (endpoint sub)) (users data') = [user]"
    using inv1 found1 by (simp add: findUserByEndpoint_def filter_has_endpoint_single)
  have found1': "findUserByEndpoint data' (endpoint sub2) = Some user"
    using found1 same by simp
  have second: "user2 = user\<lparr>subscription := sub2\<rparr>"
    and store2: "users data'' =
              map (\<lambda>u. if has_endpoint (endpoint sub) u then u\<lparr>subscription := sub2\<rparr> else u)
                (users data')"
    using r2 inv1 same unfolding upsert_existing [OF found1']
    by (auto simp add: update_first_distinct)
  have inv2: "distinct (endpoints (users data''))"
    and found2: "findUserByEndpoint data'' (endpoint sub2) = Some user2"
    using upsert_invariant [OF inv1, of sub2 fresh2] by (simp_all add: r2)
  have one2: "filter (has_endpoint (endpoint sub)) (users data'') = [user2]"
    using inv2 found2 same by (simp add: findUserByEndpoint_def filter_has_endpoint_single)
  have sub_h: "subscribe fresh sub (Some data) =
                (\<lparr>status = 200, success = Some True, error = None, content = UserId (id_u user)\<rparr>,
                 Some data')" if "endpoint sub \<noteq> []"
    using that by (simp add: subscribe_def readDB_def r1)
  have add_h: "snd (addReminder fresh fresh_rem req (Some data)) =
                Some (data'\<lparr>users :=
                  map (\<lambda>u. if has_endpoint (endpoint sub) u
                            then u\<lparr>reminders := reminders user @ [newRem fresh_rem req]\<rparr> else u)
                    (users data')\<rparr>)"
    if "endpoint sub \<noteq> [] \<and> req_subscription req = Some sub \<and> req_time req \<noteq> []"
    using that inv1 by (simp add: addReminder_def readDB_def r1 update_first_distinct Let_def)
  from existing one second store2 one2 sub_h add_h show ?thesis by simp
qed

theorem C6_upsert_keeps_user_witness:
  "distinct (endpoints (users store2)) \<and>
   addOrUpdateUserInData store2 alice_again ''f1'' =
     (alice\<lparr>subscription := alice_again\<rparr>,
      \<lparr>users = [alice\<lparr>subscription := alice_again\<rparr>, bob]\<rparr>) \<and>
   addOrUpdateUserInData \<lparr>users = [alice\<lparr>subscription := alice_again\<rparr>, bob]\<rparr>
       (subscription alice) ''f2'' = (alice, store2) \<and>
   endpoint (subscription alice) = endpoint alice_again \<and>
   findUserByEndpoint store2 (endpoint alice_again) = Some alice \<and>
   id_u (alice\<lparr>subscription := alice_again\<rparr>) = ''u1'' \<and>
   filter (has_endpoint (endpoint alice_again)) (users store2) = [alice]"
proof -
  let ?a = "alice\<lparr>subscription := alice_again\<rparr>"
  let ?d = "\<lparr>users = [?a, bob]\<rparr>"
  have h1: "distinct (endpoints (users store2))"
    by (simp add: endpoints_def store2_def alice_def bob_def)
  have h2: "addOrUpdateUserInData store2 alice_again ''f1'' = (?a, ?d)"
    by (simp add: addOrUpdateUserInData_def findUserByEndpoint_def has_endpoint_def
        store2_def alice_def bob_def alice_again_def)
  have h3: "addOrUpdateUserInData ?d (subscription alice) ''f2'' = (alice, store2)"
    by (simp add: addOrUpdateUserInData_def findUserByEndpoint_def has_endpoint_def
        store2_def alice_def bob_def alice_again_def)
  have h4: "endpoint (subscription alice) = endpoint alice_again"
    by (simp add: alice_def alice_again_def)
  have f: "findUserByEndpoint store2 (endpoint alice_again) = Some alice"
    by (simp add: findUserByEndpoint_def has_endpoint_def store2_def alice_def bob_def
        alice_again_def)
  note c = C6_upsert_keeps_user [OF h1 h2 h3 h4]
  have "id_u ?a = id_u alice" using c f by blast
  moreover have "filter (has_endpoint (endpoint alice_again)) (users store2) = [alice]"
    using c by blast
  ultimately show ?thesis using h1 h2 h3 h4 f by (simp add: alice_def)
qed

section \<open>Properties of the scheduler tick and the broadcast\<close>

text \<open>
  The inner loop, reminder by reminder: after the first \<open>k\<close> reminders of user \<open>i\<close>
  the user's object is \<open>after_sends e t i k\<close> of what it was, whatever the array holds.
\<close>

lemma after_sends_0 [simp]: "after_sends e t i 0 u = u"
  by (simp add: after_sends_def map_nth)

lemma after_sends_fields [simp]:
  "subscription (after_sends e t i k u) = subscription u"
  "id_u (after_sends e t i k u) = id_u u"
  "length (reminders (after_sends e t i k u)) = length (reminders u)"
  by (simp_all add: after_sends_def)

lemma after_sends_nth:
  "j < length (reminders u) \<Longrightarrow>
   reminders (after_sends e t i k u) ! j =
     (if j < k \<and> matched e t u j \<and> attempt e i j = Delivered
      then (reminders u ! j)\<lparr>lastSentISO := Some (clock e i j)\<rparr>
      else reminders u ! j)"
  by (simp add: after_sends_def)

lemma after_sends_Suc:
  assumes "k < length (reminders u)"
  shows "after_sends e t i (Suc k) u =
           (if matched e t u k \<and> attempt e i k = Delivered
            then (after_sends e t i k u)
                   \<lparr>reminders := (reminders (after_sends e t i k u))
                      [k := (reminders u ! k)\<lparr>lastSentISO := Some (clock e i k)\<rparr>]\<rparr>
            else after_sends e t i k u)"
proof -
  have "reminders (after_sends e t i (Suc k) u) =
          (if matched e t u k \<and> attempt e i k = Delivered
           then (reminders (after_sends e t i k u))
                  [k := (reminders u ! k)\<lparr>lastSentISO := Some (clock e i k)\<rparr>]
           else reminders (after_sends e t i k u))"
    using assms
    by (intro nth_equalityI) (auto simp add: after_sends_nth nth_list_update less_Suc_eq)
  then show ?thesis by (simp add: after_sends_def)
qed

lemma matched_after_sends:
  "k < length (reminders u) \<Longrightarrow> matched e t (after_sends e t i k u) k = matched e t u k"
  by (simp add: matched_def after_sends_nth)

lemma rem_body_objs:
  assumes "i < length (objs st)" and "objs st ! i = after_sends e t i k u"
    and "k < length (reminders u)"
  shows "objs (rem_body e t i k st) = (objs st)[i := after_sends e t i (Suc k) u]"
proof -
  have r: "reminders (objs st ! i) ! k = reminders u ! k"
    using assms by (simp add: after_sends_nth)
  have m: "shouldFireReminder (zone e) (reminders u ! k) t = matched e t u k"
    by (simp add: matched_def)
  have id: "(objs st)[i := after_sends e t i k u] = objs st"
    using assms(2) by (metis list_update_id)
  show ?thesis
    unfolding rem_body_def Let_def r m after_sends_Suc [OF assms(3)]
    using assms(2) id by (cases "attempt e i k") (auto simp add: gone_def)
qed

lemma rem_body_arr:
  "arr (rem_body e t i k st) =
     (if matched e t (objs st ! i) k \<and> gone (attempt e i k)
      then remove_first (\<lambda>x. has_endpoint (endpoint (subscription (objs st ! i))) (objs st ! x))
             (arr st)
      else arr st)"
  by (cases "attempt e i k") (auto simp add: rem_body_def Let_def matched_def gone_def)

lemma fold_upt_Suc: "fold f [0..<Suc k] st = f k (fold f [0..<k] st)"
  by simp

lemma inner_objs:
  assumes "i < length (objs st)" and "k \<le> length (reminders (objs st ! i))"
  shows "objs (fold (rem_body e t i) [0..<k] st) =
           (objs st)[i := after_sends e t i k (objs st ! i)]"
  using assms(2)
proof (induction k)
  case 0
  then show ?case by simp
next
  case (Suc k)
  let ?st = "fold (rem_body e t i) [0..<k] st"
  have ih: "objs ?st = (objs st)[i := after_sends e t i k (objs st ! i)]"
    using Suc by simp
  have len: "i < length (objs ?st)" using assms(1) by (simp add: ih)
  have at: "objs ?st ! i = after_sends e t i k (objs st ! i)"
    using assms(1) by (simp add: ih)
  have "objs (rem_body e t i k ?st) = (objs ?st)[i := after_sends e t i (Suc k) (objs st ! i)]"
    using len at Suc.prems by (intro rem_body_objs) simp_all
  then show ?case by (simp add: ih)
qed

text \<open>
  The array. When the endpoints of the users are distinct, the user that
  \<^verbatim>\<open>findIndex\<close> finds by endpoint is the user of the failed send itself, so a failure
  with 410 or 404 takes exactly that user out of the array.
\<close>

lemma remove_first_cong:
  "(\<And>x. x \<in> set xs \<Longrightarrow> P x = Q x) \<Longrightarrow> remove_first P xs = remove_first Q xs"
  by (induction xs) auto

lemma filter_absent: "i \<notin> set xs \<Longrightarrow> filter (\<lambda>x. x \<noteq> i) xs = xs"
  by (induction xs) auto

lemma remove_first_eq_filter:
  "distinct xs \<Longrightarrow> remove_first (\<lambda>x. x = i) xs = filter (\<lambda>x. x \<noteq> i) xs"
  by (induction xs) (auto simp add: filter_absent)

lemma remove_first_subseq: "subseq (remove_first P xs) xs"
  by (induction xs) auto

lemma endpoints_nth:
  "x < length us \<Longrightarrow> endpoints us ! x = endpoint (subscription (us ! x))"
  by (simp add: endpoints_def)

lemma endpoints_length [simp]: "length (endpoints us) = length us"
  by (simp add: endpoints_def)

lemma same_endpoint_same_index:
  assumes "distinct (endpoints us)" and "x < length us" and "i < length us"
  shows "(endpoint (subscription (us ! x)) = endpoint (subscription (us ! i))) = (x = i)"
  using assms nth_eq_iff_index_eq [of "endpoints us" x i] by (simp add: endpoints_nth)

lemma dropped_by_Suc:
  "dropped_by e t i (Suc k) u =
     (dropped_by e t i k u \<or> matched e t u k \<and> gone (attempt e i k))"
  by (auto simp add: dropped_by_def list_ex_iff less_Suc_eq)

lemma inner_arr:
  assumes d: "distinct (endpoints (objs st))"
    and a1: "distinct (arr st)" and a2: "set (arr st) \<subseteq> {..<length (objs st)}"
    and i: "i < length (objs st)" and k: "k \<le> length (reminders (objs st ! i))"
  shows "arr (fold (rem_body e t i) [0..<k] st) =
           (if dropped_by e t i k (objs st ! i) then filter (\<lambda>x. x \<noteq> i) (arr st) else arr st)"
  using k
proof (induction k)
  case 0
  then show ?case by (simp add: dropped_by_def)
next
  case (Suc k)
  let ?u = "objs st ! i"
  let ?st = "fold (rem_body e t i) [0..<k] st"
  have ih: "arr ?st = (if dropped_by e t i k ?u then filter (\<lambda>x. x \<noteq> i) (arr st) else arr st)"
    using Suc by simp
  have ob: "objs ?st = (objs st)[i := after_sends e t i k ?u]"
    using i Suc.prems by (simp add: inner_objs)
  have at: "objs ?st ! i = after_sends e t i k ?u" using i by (simp add: ob)
  have m: "matched e t (objs ?st ! i) k = matched e t ?u k"
    using Suc.prems by (simp add: at matched_after_sends)
  have sub: "set (arr ?st) \<subseteq> set (arr st)" by (auto simp add: ih)
  have dist: "distinct (arr ?st)" using a1 by (simp add: ih)
  have p: "has_endpoint (endpoint (subscription (objs ?st ! i))) (objs ?st ! x) = (x = i)"
    if "x \<in> set (arr ?st)" for x
  proof -
    have x: "x < length (objs st)" using that sub a2 by auto
    have "subscription (objs ?st ! x) = subscription (objs st ! x)"
      using x by (cases "x = i") (simp_all add: ob)
    then show ?thesis
      using same_endpoint_same_index [OF d x i] by (simp add: has_endpoint_def at)
  qed
  have rf: "remove_first (\<lambda>x. has_endpoint (endpoint (subscription (objs ?st ! i))) (objs ?st ! x))
              (arr ?st) = filter (\<lambda>x. x \<noteq> i) (arr ?st)"
    using remove_first_cong [of "arr ?st", OF p] remove_first_eq_filter [OF dist, of i]
    by simp
  have "arr (rem_body e t i k ?st) =
          (if matched e t ?u k \<and> gone (attempt e i k)
           then filter (\<lambda>x. x \<noteq> i) (arr ?st) else arr ?st)"
    by (simp add: rem_body_arr m rf)
  then show ?case by (simp add: ih dropped_by_Suc)
qed

lemma after_tick_fields [simp]:
  "subscription (after_tick e t i u) = subscription u"
  "id_u (after_tick e t i u) = id_u u"
  "length (reminders (after_tick e t i u)) = length (reminders u)"
  by (simp_all add: after_tick_def)

lemma user_body_objs:
  "i < length (objs st) \<Longrightarrow>
   objs (user_body e t i st) = (objs st)[i := after_tick e t i (objs st ! i)]"
  by (simp add: user_body_def inner_objs after_tick_def)

lemma user_body_arr:
  assumes "distinct (endpoints (objs st))"
    and "distinct (arr st)" and "set (arr st) \<subseteq> {..<length (objs st)}"
    and "i < length (objs st)"
  shows "arr (user_body e t i st) =
           (if dropped e t i (objs st ! i) then filter (\<lambda>x. x \<noteq> i) (arr st) else arr st)"
  using assms by (simp add: user_body_def inner_arr dropped_def)

lemma objs_after_0 [simp]: "objs_after e t 0 us = us"
  by (simp add: objs_after_def map_nth)

lemma arr_after_0 [simp]: "arr_after e t 0 us = [0..<length us]"
  by (simp add: arr_after_def)

lemma objs_after_length [simp]: "length (objs_after e t k us) = length us"
  by (simp add: objs_after_def)

lemma objs_after_nth:
  "x < length us \<Longrightarrow>
   objs_after e t k us ! x = (if x < k then after_tick e t x (us ! x) else us ! x)"
  by (simp add: objs_after_def)

lemma objs_after_Suc:
  "k < length us \<Longrightarrow>
   (objs_after e t k us)[k := after_tick e t k (us ! k)] = objs_after e t (Suc k) us"
  by (intro nth_equalityI) (auto simp add: objs_after_nth nth_list_update less_Suc_eq)

lemma endpoints_objs_after [simp]: "endpoints (objs_after e t k us) = endpoints us"
  by (intro nth_equalityI) (auto simp add: endpoints_nth objs_after_nth)

text \<open>
  The outer loop, user by user.
\<close>

lemma outer_objs:
  "k \<le> length us \<Longrightarrow>
   objs (fold (user_body e t) [0..<k] \<lparr>objs = us, arr = [0..<length us]\<rparr>) = objs_after e t k us"
proof (induction k)
  case 0
  then show ?case by simp
next
  case (Suc k)
  let ?st = "fold (user_body e t) [0..<k] \<lparr>objs = us, arr = [0..<length us]\<rparr>"
  have ih: "objs ?st = objs_after e t k us" using Suc by simp
  have "objs (user_body e t k ?st) = (objs ?st)[k := after_tick e t k (objs ?st ! k)]"
    using Suc.prems by (intro user_body_objs) (simp add: ih)
  then show ?case using Suc.prems by (simp add: ih objs_after_nth objs_after_Suc)
qed

lemma outer_arr:
  assumes "distinct (endpoints us)"
  shows "k \<le> length us \<Longrightarrow>
   arr (fold (user_body e t) [0..<k] \<lparr>objs = us, arr = [0..<length us]\<rparr>) = arr_after e t k us"
proof (induction k)
  case 0
  then show ?case by simp
next
  case (Suc k)
  let ?st = "fold (user_body e t) [0..<k] \<lparr>objs = us, arr = [0..<length us]\<rparr>"
  have ih: "arr ?st = arr_after e t k us" using Suc by simp
  have ob: "objs ?st = objs_after e t k us" using Suc.prems by (simp add: outer_objs)
  have "arr (user_body e t k ?st) =
          (if dropped e t k (objs ?st ! k) then filter (\<lambda>x. x \<noteq> k) (arr ?st) else arr ?st)"
    using assms Suc.prems
    by (intro user_body_arr) (auto simp add: ob ih arr_after_def)
  moreover have "objs ?st ! k = us ! k" using Suc.prems by (simp add: ob objs_after_nth)
  moreover have "filter (\<lambda>x. x \<noteq> k) (arr_after e t k us) = arr_after e t (Suc k) us"
    if "dropped e t k (us ! k)"
    using that by (auto simp add: arr_after_def less_Suc_eq intro!: filter_cong)
  moreover have "arr_after e t k us = arr_after e t (Suc k) us"
    if "\<not> dropped e t k (us ! k)"
    using that by (auto simp add: arr_after_def less_Suc_eq intro!: filter_cong)
  ultimately show ?case by (simp add: ih)
qed

text \<open>
  Without any assumption on the endpoints, the array only ever loses users.
\<close>

lemma subseq_subset: "subseq xs ys \<Longrightarrow> set xs \<subseteq> set ys"
  using list_emb_set [of "(=)" xs ys] by auto

lemma rem_body_subseq: "subseq (arr (rem_body e t i j st)) (arr st)"
  by (simp add: rem_body_arr remove_first_subseq)

lemma inner_subseq: "subseq (arr (fold (rem_body e t i) js st)) (arr st)"
proof (induction js arbitrary: st)
  case Nil
  then show ?case by simp
next
  case (Cons j js)
  have "subseq (arr (fold (rem_body e t i) js (rem_body e t i j st))) (arr (rem_body e t i j st))"
    by (rule Cons.IH)
  then show ?case using rem_body_subseq [of e t i j st] by (auto intro: subseq_order.trans)
qed

lemma user_body_subseq: "subseq (arr (user_body e t i st)) (arr st)"
  by (simp add: user_body_def inner_subseq)

lemma outer_subseq: "subseq (arr (fold (user_body e t) is st)) (arr st)"
proof (induction "is" arbitrary: st)
  case Nil
  then show ?case by simp
next
  case (Cons i "is")
  have "subseq (arr (fold (user_body e t) is (user_body e t i st))) (arr (user_body e t i st))"
    by (rule Cons.IH)
  then show ?case using user_body_subseq [of e t i st] by (auto intro: subseq_order.trans)
qed

lemma tick_loop_objs: "objs (tick_loop e t us) = objs_after e t (length us) us"
  by (simp add: tick_loop_def outer_objs)

lemma tick_loop_subseq: "subseq (arr (tick_loop e t us)) [0..<length us]"
  using outer_subseq [of e t "[0..<length us]" "\<lparr>objs = us, arr = [0..<length us]\<rparr>"]
  by (simp add: tick_loop_def)

lemma tick_loop_arr:
  "distinct (endpoints us) \<Longrightarrow> arr (tick_loop e t us) = arr_after e t (length us) us"
  by (simp add: tick_loop_def outer_arr)

lemma tick_loop_users:
  "map (\<lambda>k. objs (tick_loop e t us) ! k) (arr (tick_loop e t us)) =
   map (\<lambda>k. after_tick e t k (us ! k)) (arr (tick_loop e t us))"
proof (rule map_cong [OF refl])
  fix k assume "k \<in> set (arr (tick_loop e t us))"
  then have "k \<in> set [0..<length us]"
    using subseq_subset [OF tick_loop_subseq [of e t us]] by auto
  then show "objs (tick_loop e t us) ! k = after_tick e t k (us ! k)"
    by (simp add: tick_loop_objs objs_after_nth)
qed

lemma cron_tick_subseq:
  "subseq (users (cron_tick e t file))
     (map (\<lambda>k. after_tick e t k (users (readDB file) ! k)) [0..<length (users (readDB file))])"
  by (simp add: cron_tick_def Let_def tick_loop_users subseq_map tick_loop_subseq)

text \<open>
  The store that a tick writes, when the endpoints are distinct: the users that no
  send reported gone, in their order, each with the reminders that were delivered
  stamped.
\<close>

lemma cron_tick_closed_form:
  assumes "distinct (endpoints (users (readDB file)))"
  shows "users (cron_tick e t file) =
           map (\<lambda>k. after_tick e t k (users (readDB file) ! k))
             (filter (\<lambda>k. \<not> dropped e t k (users (readDB file) ! k))
                [0..<length (users (readDB file))])"
proof -
  have "arr_after e t (length us) us = filter (\<lambda>k. \<not> dropped e t k (us ! k)) [0..<length us]"
    for us
    by (auto simp add: arr_after_def intro!: filter_cong)
  then show ?thesis
    using assms by (simp add: cron_tick_def Let_def tick_loop_users tick_loop_arr)
qed

lemma cron_tick_endpoints:
  "set (endpoints (users (cron_tick e t file))) \<subseteq> set (endpoints (users (readDB file)))"
proof -
  let ?us = "users (readDB file)"
  have "subseq (endpoints (users (cron_tick e t file)))
          (endpoints (map (\<lambda>k. after_tick e t k (?us ! k)) [0..<length ?us]))"
    unfolding endpoints_def by (intro subseq_map cron_tick_subseq)
  moreover have "endpoints (map (\<lambda>k. after_tick e t k (?us ! k)) [0..<length ?us]) = endpoints ?us"
    by (intro nth_equalityI) (simp_all add: endpoints_def)
  ultimately show ?thesis using subseq_subset by metis
qed

lemma dropped_iff:
  "dropped e t i u =
     (\<exists>j<length (reminders u). shouldFireReminder (zone e) (reminders u ! j) t \<and>
                               gone (attempt e i j))"
  by (auto simp add: dropped_def dropped_by_def list_ex_iff matched_def)

lemma cron_tick_drops:
  assumes d: "distinct (endpoints (users (readDB file)))"
    and i: "i < length (users (readDB file))"
    and g: "dropped e t i (users (readDB file) ! i)"
  shows "endpoint (subscription (users (readDB file) ! i))
           \<notin> set (endpoints (users (cron_tick e t file)))"
proof
  let ?us = "users (readDB file)"
  assume "endpoint (subscription (?us ! i)) \<in> set (endpoints (users (cron_tick e t file)))"
  then obtain k where k: "k < length ?us" "\<not> dropped e t k (?us ! k)"
    and eq: "endpoint (subscription (?us ! i)) = endpoint (subscription (?us ! k))"
    unfolding cron_tick_closed_form [OF d] endpoints_def by auto
  from eq have "k = i" using same_endpoint_same_index [OF d k(1) i] by simp
  with k(2) g show False by simp
qed

text \<open>
  The broadcast loop.
\<close>

lemma remove_first_endpoints:
  "set (endpoints (remove_first P us)) \<subseteq> set (endpoints us)"
  by (induction us) (auto simp add: endpoints_def)

lemma remove_first_distinct:
  "distinct (endpoints us) \<Longrightarrow> distinct (endpoints (remove_first P us))"
proof (induction us)
  case Nil
  then show ?case by simp
next
  case (Cons u us)
  then show ?case
    using remove_first_endpoints [of P us] by (auto simp add: endpoints_def)
qed

lemma remove_first_has_endpoint:
  "distinct (endpoints us) \<Longrightarrow> ep \<notin> set (endpoints (remove_first (has_endpoint ep) us))"
  by (induction us) (auto simp add: endpoints_def has_endpoint_def)

lemma broadcast_endpoints:
  "set (endpoints (fst (broadcast_loop send i rest (us, res)))) \<subseteq> set (endpoints us)"
proof (induction rest arbitrary: i us res)
  case Nil
  then show ?case by simp
next
  case (Cons user rest)
  show ?case
  proof (cases "send i")
    case Delivered
    then show ?thesis using Cons.IH by simp
  next
    case (Failed code)
    let ?us = "remove_first (has_endpoint (endpoint (subscription user))) us"
    let ?res = "res @ [(endpoint (subscription user), False)]"
    show ?thesis
    proof (cases "gone (Failed code)")
      case True
      have "set (endpoints (fst (broadcast_loop send (Suc i) rest (?us, ?res))))
              \<subseteq> set (endpoints ?us)"
        by (rule Cons.IH)
      also have "\<dots> \<subseteq> set (endpoints us)" by (rule remove_first_endpoints)
      finally show ?thesis using Failed True by simp
    next
      case False
      then show ?thesis using Failed Cons.IH [of "Suc i" us ?res] by simp
    qed
  qed
qed

lemma broadcast_drops:
  "distinct (endpoints us) \<Longrightarrow> k < length rest \<Longrightarrow> gone (send (i + k)) \<Longrightarrow>
   endpoint (subscription (rest ! k))
     \<notin> set (endpoints (fst (broadcast_loop send i rest (us, res))))"
proof (induction rest arbitrary: i k us res)
  case Nil
  then show ?case by simp
next
  case (Cons user rest)
  let ?ep = "endpoint (subscription user)"
  show ?case
  proof (cases k)
    case 0
    then have g: "gone (send i)" using Cons.prems(3) by simp
    then obtain code where f: "send i = Failed code" by (cases "send i") (auto simp add: gone_def)
    have "?ep \<notin> set (endpoints (remove_first (has_endpoint ?ep) us))"
      using Cons.prems(1) by (rule remove_first_has_endpoint)
    then show ?thesis
      using 0 f g broadcast_endpoints [of send "Suc i" rest "remove_first (has_endpoint ?ep) us"]
      by auto
  next
    case (Suc k')
    have k': "k' < length rest" and g: "gone (send (Suc i + k'))"
      using Cons.prems Suc by simp_all
    show ?thesis
    proof (cases "send i")
      case Delivered
      then show ?thesis using Cons.IH [OF Cons.prems(1) k' g] Suc by simp
    next
      case (Failed code)
      have d: "distinct (endpoints (remove_first (has_endpoint ?ep) us))"
        using Cons.prems(1) by (rule remove_first_distinct)
      show ?thesis
        using Failed Suc Cons.IH [OF d k' g] Cons.IH [OF Cons.prems(1) k' g]
        by (auto split: if_splits)
    qed
  qed
qed

lemma sendNotification_drops:
  assumes "distinct (endpoints (users (readDB file)))"
    and "i < length (users (readDB file))" and "gone (send i)"
  shows "\<exists>r db'. sendNotification True send file = (r, Some db') \<and>
           endpoint (subscription (users (readDB file) ! i)) \<notin> set (endpoints (users db'))"
proof -
  let ?us = "users (readDB file)"
  obtain us' results where b: "broadcast_loop send 0 ?us (?us, []) = (us', results)"
    by (cases "broadcast_loop send 0 ?us (?us, [])")
  have "endpoint (subscription (?us ! i)) \<notin> set (endpoints us')"
    using broadcast_drops [OF assms(1,2), of send 0 "[]"] assms(3) by (simp add: b)
  then show ?thesis by (simp add: sendNotification_def Let_def b)
qed

text \<open>
  Claim C8. In a store whose endpoints are distinct: when, during a tick, a send for a
  matched reminder of a user fails with status 410 or 404, the store that the tick
  writes has no user with that user's endpoint, and neither has the store written by
  any later tick that starts from it; when a send of the manual broadcast to a user
  fails with 410 or 404, the store that the broadcast writes has no user with that
  endpoint.
\<close>

theorem C8_gone_user_removed:
  assumes "distinct (endpoints (users (readDB file)))"
    and "i < length (users (readDB file))"
  shows "(\<forall>j. j < length (reminders (users (readDB file) ! i)) \<and>
              shouldFireReminder (zone e) (reminders (users (readDB file) ! i) ! j) t \<and>
              gone (attempt e i j) \<longrightarrow>
              endpoint (subscription (users (readDB file) ! i))
                \<notin> set (endpoints (users (cron_tick e t file))) \<and>
              (\<forall>e' t'. endpoint (subscription (users (readDB file) ! i))
                \<notin> set (endpoints (users (cron_tick e' t' (Some (cron_tick e t file)))))))
         \<and> (gone (send i) \<longrightarrow>
              (\<exists>r db'. sendNotification True send file = (r, Some db') \<and>
                 endpoint (subscription (users (readDB file) ! i))
                   \<notin> set (endpoints (users db'))))"
proof -
  let ?ep = "endpoint (subscription (users (readDB file) ! i))"
  have tick: "?ep \<notin> set (endpoints (users (cron_tick e t file))) \<and>
              (\<forall>e' t'. ?ep \<notin> set (endpoints (users (cron_tick e' t' (Some (cron_tick e t file))))))"
    if "j < length (reminders (users (readDB file) ! i)) \<and>
        shouldFireReminder (zone e) (reminders (users (readDB file) ! i) ! j) t \<and>
        gone (attempt e i j)" for j
  proof -
    have "dropped e t i (users (readDB file) ! i)" using that by (auto simp add: dropped_iff)
    then have a: "?ep \<notin> set (endpoints (users (cron_tick e t file)))"
      using assms by (intro cron_tick_drops)
    have "set (endpoints (users (cron_tick e' t' (Some (cron_tick e t file)))))
            \<subseteq> set (endpoints (users (cron_tick e t file)))" for e' t'
      using cron_tick_endpoints [of e' t' "Some (cron_tick e t file)"] by (simp add: readDB_def)
    with a show ?thesis by blast
  qed
  have bc: "\<exists>r db'. sendNotification True send file = (r, Some db') \<and>
                 ?ep \<notin> set (endpoints (users db'))" if "gone (send i)"
    using assms that by (rule sendNotification_drops)
  from tick bc show ?thesis by blast
qed

theorem C8_gone_user_removed_witness:
  "distinct (endpoints (users (readDB (Some store2)))) \<and>
   (0::nat) < length (users (readDB (Some store2))) \<and>
   (0::nat) < length (reminders (users (readDB (Some store2)) ! 0)) \<and>
   shouldFireReminder (zone alice_gone) (reminders (users (readDB (Some store2)) ! 0) ! 0)
     1704096000000 \<and>
   gone (attempt alice_gone 0 0) \<and>
   endpoint (subscription (users (readDB (Some store2)) ! 0)) = ''https://push.example/a'' \<and>
   ''https://push.example/a''
     \<notin> set (endpoints (users (cron_tick alice_gone 1704096000000 (Some store2)))) \<and>
   gone (Failed (Some 404)) \<and>
   (\<exists>r db'. sendNotification True (\<lambda>i. Failed (Some 404)) (Some store2) = (r, Some db') \<and>
      ''https://push.example/a'' \<notin> set (endpoints (users db')))"
proof -
  have h1: "distinct (endpoints (users (readDB (Some store2))))"
    by (simp add: readDB_def endpoints_def store2_def alice_def bob_def)
  have h2: "(0::nat) < length (users (readDB (Some store2)))"
    by (simp add: readDB_def store2_def)
  have h3: "(0::nat) < length (reminders (users (readDB (Some store2)) ! 0))"
    by (simp add: readDB_def store2_def alice_def)
  have r: "reminders (users (readDB (Some store2)) ! 0) ! 0 = scenario_0800"
    by (simp add: readDB_def store2_def alice_def)
  have h4: "shouldFireReminder (zone alice_gone)
              (reminders (users (readDB (Some store2)) ! 0) ! 0) 1704096000000"
    unfolding r alice_gone_def scenario_0800_def by code_simp
  have h5: "gone (attempt alice_gone 0 0)"
    by (simp add: attempt_def alice_gone_def gone_def)
  have h6: "gone ((\<lambda>i::nat. Failed (Some 404)) 0)" by (simp add: gone_def)
  have ep: "endpoint (subscription (users (readDB (Some store2)) ! 0)) = ''https://push.example/a''"
    by (simp add: readDB_def store2_def alice_def)
  note c = C8_gone_user_removed [OF h1 h2, of alice_gone 1704096000000 "\<lambda>i. Failed (Some 404)"]
  have a: "''https://push.example/a''
     \<notin> set (endpoints (users (cron_tick alice_gone 1704096000000 (Some store2))))"
    using c h3 h4 h5 unfolding ep by blast
  have b: "\<exists>r db'. sendNotification True (\<lambda>i. Failed (Some 404)) (Some store2) = (r, Some db') \<and>
      ''https://push.example/a'' \<notin> set (endpoints (users db'))"
    using c h6 unfolding ep by blast
  from h1 h2 h3 h4 h5 h6 ep a b show ?thesis by simp
qed

text \<open>
  Claim C9 says that a delivered reminder gets the evaluation instant of the tick as
  its \<open>lastSentISO\<close>, and that a reminder whose send failed is retried on the next
  tick. The tick stores \<^verbatim>\<open>new Date()\<close>, read after the send: with a send that takes
  250 ms the stored instant is not the evaluation instant. And after a failed send at
  08:00:00 the store is unchanged, but the tick a minute later does not match the
  08:00 reminder.
\<close>

theorem C9_send_time_counterexample:
  "shouldFireReminder (zone slow_send) scenario_0800 1704096000000 \<and>
   users (cron_tick slow_send 1704096000000 (Some \<lparr>users = [carol]\<rparr>)) =
     [carol\<lparr>reminders := [scenario_0800\<lparr>lastSentISO := Some 1704096000250\<rparr>]\<rparr>] \<and>
   Some (1704096000250::int) \<noteq> Some 1704096000000 \<and>
   users (cron_tick transient_failure 1704096000000 (Some \<lparr>users = [carol]\<rparr>)) = [carol] \<and>
   \<not> shouldFireReminder (zone transient_failure) scenario_0800 1704096060000"
proof -
  have a: "shouldFireReminder (zone slow_send) scenario_0800 1704096000000"
    unfolding slow_send_def scenario_0800_def by code_simp
  have b: "users (cron_tick slow_send 1704096000000 (Some \<lparr>users = [carol]\<rparr>)) =
     [carol\<lparr>reminders := [scenario_0800\<lparr>lastSentISO := Some 1704096000250\<rparr>]\<rparr>]"
    unfolding slow_send_def carol_def scenario_0800_def by code_simp
  have c: "users (cron_tick transient_failure 1704096000000 (Some \<lparr>users = [carol]\<rparr>)) = [carol]"
    unfolding transient_failure_def carol_def scenario_0800_def by code_simp
  have d: "\<not> shouldFireReminder (zone transient_failure) scenario_0800 1704096060000"
    unfolding transient_failure_def scenario_0800_def by code_simp
  from a b c d show ?thesis by simp
qed

text \<open>
  Claim C9, amended: in a store whose endpoints are distinct, the store that a tick
  writes holds exactly the users for which no send for a matched reminder failed with
  status 410 or 404, in their order, each changed in one way only: a reminder that
  matched and whose send was delivered has \<open>lastSentISO\<close> set to the clock reading
  taken after that send; every other reminder, and so every reminder whose send
  failed, is as it was read.
\<close>

theorem C9_lastSent_only_on_delivery:
  assumes "distinct (endpoints (users (readDB file)))"
  shows "users (cron_tick e t file) =
     map (\<lambda>i. (users (readDB file) ! i)
            \<lparr>reminders :=
               map (\<lambda>j. if shouldFireReminder (zone e) (reminders (users (readDB file) ! i) ! j) t
                           \<and> attempt e i j = Delivered
                        then (reminders (users (readDB file) ! i) ! j)
                               \<lparr>lastSentISO := Some (clock e i j)\<rparr>
                        else reminders (users (readDB file) ! i) ! j)
                 [0..<length (reminders (users (readDB file) ! i))]\<rparr>)
       (filter (\<lambda>i. \<not> (\<exists>j<length (reminders (users (readDB file) ! i)).
                          shouldFireReminder (zone e) (reminders (users (readDB file) ! i) ! j) t
                          \<and> gone (attempt e i j)))
          [0..<length (users (readDB file))])"
  unfolding cron_tick_closed_form [OF assms] dropped_iff
  by (simp add: after_tick_def after_sends_def matched_def)

text \<open>
  A tick at 08:00:00Z over the store of two users, with a first send that is delivered
  and a second that fails with status 500: both reminders of the first user match, the
  first is stamped with the clock reading after its send, the second is as it was; the
  reminder of the second user does not match.
\<close>

theorem C9_lastSent_only_on_delivery_witness:
  "distinct (endpoints (users (readDB (Some store2)))) \<and>
   shouldFireReminder (zone second_send_fails) every_30 1704096000000 \<and>
   attempt second_send_fails 0 1 = Failed (Some 500) \<and>
   users (cron_tick second_send_fails 1704096000000 (Some store2)) =
     [alice\<lparr>reminders := [scenario_0800\<lparr>lastSentISO := Some 1704096000250\<rparr>, every_30]\<rparr>, bob]"
proof -
  have h: "distinct (endpoints (users (readDB (Some store2))))"
    by (simp add: readDB_def endpoints_def store2_def alice_def bob_def)
  have z: "zone second_send_fails = 0" by (simp add: second_send_fails_def)
  have m1: "shouldFireReminder 0 scenario_0800 1704096000000"
    unfolding scenario_0800_def by code_simp
  have m2: "shouldFireReminder 0 every_30 1704096000000"
    unfolding every_30_def by code_simp
  have m3: "\<not> shouldFireReminder 0 backwards_window 1704096000000"
    unfolding backwards_window_def by code_simp
  have a: "attempt second_send_fails i j = (if j = 0 then Delivered else Failed (Some 500))"
    for i j by (simp add: attempt_def second_send_fails_def)
  have c: "clock second_send_fails i j = 1704096000250" for i j
    by (simp add: second_send_fails_def)
  have u: "users (readDB (Some store2)) = [alice, bob]" by (simp add: readDB_def store2_def)
  have ra: "reminders alice = [scenario_0800, every_30]" by (simp add: alice_def)
  have rb: "reminders bob = [backwards_window]" by (simp add: bob_def)
  have "users (cron_tick second_send_fails 1704096000000 (Some store2)) =
     [alice\<lparr>reminders := [scenario_0800\<lparr>lastSentISO := Some 1704096000250\<rparr>, every_30]\<rparr>, bob]"
    unfolding C9_lastSent_only_on_delivery [OF h] u z
    by (simp add: ra rb a c m1 m2 m3 gone_def upt_conv_Cons less_Suc_eq)
  then show ?thesis using h m2 by (simp add: z a)
qed

section \<open>The invariant of the store\<close>

lemma update_first_endpoints_reminders:
  "endpoints (update_first P (\<lambda>u. u\<lparr>reminders := rs\<rparr>) us) = endpoints us"
  unfolding endpoints_def by (rule update_first_map) simp

lemma delete_loop_endpoints: "endpoints (fst (delete_loop rid us)) = endpoints us"
  by (induction us) (auto simp add: endpoints_def split: prod.splits)

lemma broadcast_distinct:
  "distinct (endpoints us) \<Longrightarrow>
   distinct (endpoints (fst (broadcast_loop send i rest (us, res))))"
proof (induction rest arbitrary: i us res)
  case Nil
  then show ?case by simp
next
  case (Cons user rest)
  show ?case
  proof (cases "send i")
    case Delivered
    then show ?thesis using Cons by simp
  next
    case (Failed code)
    then show ?thesis
      using Cons.IH [OF remove_first_distinct [OF Cons.prems]] Cons.IH [OF Cons.prems]
      by (auto split: if_splits)
  qed
qed

lemma subseq_distinct: "subseq xs ys \<Longrightarrow> distinct ys \<Longrightarrow> distinct xs"
  by (induction rule: list_emb.induct) (auto dest: subseq_subset)

text \<open>
  Every operation that writes the store keeps its endpoints distinct; the store starts
  empty (\<open>readDB None\<close>). This is the state in which claims C6 and C8 are stated.
\<close>

lemma store_invariant:
  assumes "distinct (endpoints (users (readDB file)))"
  shows "snd (subscribe fresh sub file) = Some db' \<Longrightarrow> distinct (endpoints (users db'))"
    and "snd (addReminder fresh fresh_rem req file) = Some db' \<Longrightarrow>
         distinct (endpoints (users db'))"
    and "snd (deleteReminder rid file) = Some db' \<Longrightarrow> distinct (endpoints (users db'))"
    and "snd (sendNotification v send file) = Some db' \<Longrightarrow> distinct (endpoints (users db'))"
    and "distinct (endpoints (users (cron_tick e t file)))"
    and "distinct (endpoints (users (readDB None)))"
proof -
  show "snd (subscribe fresh sub file) = Some db' \<Longrightarrow> distinct (endpoints (users db'))"
    using upsert_invariant [OF assms, of sub fresh]
    by (auto simp add: subscribe_def Let_def split: if_splits prod.splits)
  show "snd (addReminder fresh fresh_rem req file) = Some db' \<Longrightarrow>
         distinct (endpoints (users db'))"
  proof -
    assume a: "snd (addReminder fresh fresh_rem req file) = Some db'"
    then obtain sub where s: "req_subscription req = Some sub"
      by (cases "req_subscription req") (auto simp add: addReminder_def)
    show ?thesis
      using a upsert_invariant [OF assms, of sub fresh]
      by (auto simp add: addReminder_def s Let_def update_first_endpoints_reminders
          split: if_splits prod.splits)
  qed
  show "snd (deleteReminder rid file) = Some db' \<Longrightarrow> distinct (endpoints (users db'))"
    using assms delete_loop_endpoints [of rid "users (readDB file)"]
    by (auto simp add: deleteReminder_def Let_def split: if_splits prod.splits)
  show "snd (sendNotification v send file) = Some db' \<Longrightarrow> distinct (endpoints (users db'))"
    using broadcast_distinct [OF assms, of send 0 "users (readDB file)" "[]"]
    by (auto simp add: sendNotification_def Let_def split: if_splits prod.splits)
  show "distinct (endpoints (users (cron_tick e t file)))"
  proof -
    let ?us = "users (readDB file)"
    have "subseq (endpoints (users (cron_tick e t file)))
            (endpoints (map (\<lambda>k. after_tick e t k (?us ! k)) [0..<length ?us]))"
      unfolding endpoints_def by (intro subseq_map cron_tick_subseq)
    moreover have "endpoints (map (\<lambda>k. after_tick e t k (?us ! k)) [0..<length ?us]) = endpoints ?us"
      by (intro nth_equalityI) (simp_all add: endpoints_def)
    ultimately show ?thesis using assms subseq_distinct by metis
  qed
  show "distinct (endpoints (users (readDB None)))"
    by (simp add: readDB_def endpoints_def)
qed

end
